theory Spec2Isabelle
  imports Complex_Main "HOL-Library.AList"
begin

section \<open>Data model (src/types.ts)\<close>

text \<open>
  A channel cell of \<open>ProcessedDataRow\<close> is \<open>number | null\<close>: \<open>Some x\<close> is the number
  \<open>x\<close>, \<open>None\<close> is \<open>null\<close>.  Numbers are the reals: rounding of IEEE doubles, \<open>NaN\<close> and
  the infinities are outside this development (\<open>parseExcelFileContents\<close> turns \<open>NaN\<close> into
  \<open>null\<close>, and the deep copy through JSON does the same).  The field \<open>VO2_pct_max\<close> is the
  annotation \<open>'VO2_%max'\<close> of the percentile rows; the source stores the text \<open>i\<close> followed
  by a percent sign, the model stores the number \<open>i\<close>.
\<close>

record ProcessedDataRow =
  t :: string
  timeInSeconds :: real
  VO2 :: "real option"
  VCO2 :: "real option"
  VE :: "real option"
  HR :: "real option"
  VT :: "real option"
  BF :: "real option"
  VO2_kg :: "real option"
  VO2_HR :: "real option"
  VE_VO2 :: "real option"
  VE_VCO2 :: "real option"
  RER :: "real option"
  VD_VT_est :: "real option"
  Load :: "real option"
  Marker :: "string option"
  VO2_pct_max :: "nat option"

text \<open>The six primary channels, in the order of \<open>OUTLIER_COLS\<close>; \<open>row[col]\<close> is \<open>getc col row\<close>.\<close>

datatype col = Col_VO2 | Col_VCO2 | Col_VE | Col_HR | Col_VT | Col_BF

definition OUTLIER_COLS :: "col list" where
  "OUTLIER_COLS = [Col_VO2, Col_VCO2, Col_VE, Col_HR, Col_VT, Col_BF]"

fun getc :: "col \<Rightarrow> ProcessedDataRow \<Rightarrow> real option" where
  "getc Col_VO2 r = VO2 r"
| "getc Col_VCO2 r = VCO2 r"
| "getc Col_VE r = VE r"
| "getc Col_HR r = HR r"
| "getc Col_VT r = VT r"
| "getc Col_BF r = BF r"

fun setc :: "col \<Rightarrow> real option \<Rightarrow> ProcessedDataRow \<Rightarrow> ProcessedDataRow" where
  "setc Col_VO2 v r = r\<lparr>VO2 := v\<rparr>"
| "setc Col_VCO2 v r = r\<lparr>VCO2 := v\<rparr>"
| "setc Col_VE v r = r\<lparr>VE := v\<rparr>"
| "setc Col_HR v r = r\<lparr>HR := v\<rparr>"
| "setc Col_VT v r = r\<lparr>VT := v\<rparr>"
| "setc Col_BF v r = r\<lparr>BF := v\<rparr>"

section \<open>Derived channels (recalculateDerivedMetrics)\<close>

definition recalculateDerivedMetrics :: "ProcessedDataRow \<Rightarrow> real \<Rightarrow> ProcessedDataRow" where
  "recalculateDerivedMetrics row bodyWeight =
     (let vo2 = VO2 row; vco2 = VCO2 row; ve = VE row; hr = HR row in
      row\<lparr>
        VO2_kg := (case vo2 of Some a \<Rightarrow> if bodyWeight > 0 then Some (a * 1000 / bodyWeight) else None
                   | None \<Rightarrow> None),
        VO2_HR := (case (vo2, hr) of (Some a, Some h) \<Rightarrow> if h > 0 then Some (a * 1000 / h) else None
                   | _ \<Rightarrow> None),
        VE_VO2 := (case (ve, vo2) of (Some e, Some a) \<Rightarrow> if a > 0 then Some (e / a) else None
                   | _ \<Rightarrow> None),
        VE_VCO2 := (case (ve, vco2) of (Some e, Some c) \<Rightarrow> if c > 0 then Some (e / c) else None
                   | _ \<Rightarrow> None),
        RER := (case (vco2, vo2) of (Some c, Some a) \<Rightarrow> if a > 0 then Some (c / a) else None
                   | _ \<Rightarrow> None),
        VD_VT_est := (case (vco2, vo2) of
                     (Some c, Some a) \<Rightarrow> if a > 0 then Some (max 0 (0.25 * (c / a) - 0.05)) else None
                   | _ \<Rightarrow> None)\<rparr>)"

section \<open>Rolling smoother (applySmoothing)\<close>

definition colsToSmooth :: "col list" where
  "colsToSmooth = [Col_VO2, Col_VCO2, Col_VE, Col_HR, Col_VT, Col_BF]"

text \<open>The body of the inner loop: the three values are read from the input \<open>data\<close>.\<close>

definition smooth_cell :: "ProcessedDataRow list \<Rightarrow> nat \<Rightarrow> col \<Rightarrow> real option" where
  "smooth_cell data i c =
     (case (getc c (data ! (i - 2)), getc c (data ! (i - 1)), getc c (data ! i)) of
        (Some val1, Some val2, Some val3) \<Rightarrow> Some ((val1 + val2 + val3) / 3)
      | _ \<Rightarrow> None)"

definition smooth_row :: "ProcessedDataRow list \<Rightarrow> nat \<Rightarrow> ProcessedDataRow \<Rightarrow> ProcessedDataRow" where
  "smooth_row data i row = foldl (\<lambda>r c. setc c (smooth_cell data i c) r) row colsToSmooth"

definition smooth_loop :: "ProcessedDataRow list \<Rightarrow> ProcessedDataRow list" where
  "smooth_loop data =
     foldl (\<lambda>newSmoothedData i. newSmoothedData[i := smooth_row data i (newSmoothedData ! i)])
       data [2 ..< length data]"

definition applySmoothing :: "ProcessedDataRow list \<Rightarrow> real \<Rightarrow> ProcessedDataRow list" where
  "applySmoothing data bodyWeight =
     (if length data < 3 then data
      else map (\<lambda>row. recalculateDerivedMetrics row bodyWeight) (smooth_loop data))"

text \<open>A row with every channel \<open>null\<close>, used to write concrete series.\<close>

definition blank :: "string \<Rightarrow> real \<Rightarrow> ProcessedDataRow" where
  "blank lbl s = \<lparr>t = lbl, timeInSeconds = s, VO2 = None, VCO2 = None, VE = None, HR = None,
     VT = None, BF = None, VO2_kg = None, VO2_HR = None, VE_VO2 = None, VE_VCO2 = None,
     RER = None, VD_VT_est = None, Load = None, Marker = None, VO2_pct_max = None\<rparr>"

section \<open>Audit log (src/types.ts) and cleaning state\<close>

text \<open>
  The reason of an entry is a text the source formats from the stage number \<open>i + 1\<close> and, for
  the statistical rule, the mean and the standard deviation (printed with two decimals), or
  the heart-rate increase.  The model keeps the numbers the text is built from.
\<close>

datatype action = REMOVED | INTERPOLATED

datatype reason = SD3 nat real real | HR_range nat | HR_spike nat real

record AuditLogEntry =
  time :: string
  column :: col
  originalValue :: real
  reason :: reason
  action :: action
  newValue :: "real option"

text \<open>
  \<open>auditMap\<close> is a JavaScript \<open>Map\<close> keyed by the text \<open>time-col\<close>.  No name of
  \<open>OUTLIER_COLS\<close> is the end of another, so two keys are equal exactly when the time labels
  and the columns are: the key is the pair.  The map is an association list in insertion
  order: \<open>AList.update\<close> replaces the value of a present key in place and appends a new key,
  as \<open>Map.prototype.set\<close> does.
\<close>

type_synonym auditMap = "((string \<times> col) \<times> AuditLogEntry) list"

type_synonym detect_state = "ProcessedDataRow list \<times> auditMap \<times> int"

definition STAGE_ROWS :: nat where
  "STAGE_ROWS = 18"

section \<open>Outlier detector (first loop of cleanAndInterpolateData)\<close>

text \<open>
  The three statements both passes run on a rejected value: \<open>auditMap.set\<close>, the cell set to
  \<open>null\<close>, \<open>outliersRemoved++\<close>.
\<close>

definition reject :: "nat \<Rightarrow> col \<Rightarrow> real \<Rightarrow> reason \<Rightarrow> detect_state \<Rightarrow> detect_state" where
  "reject j c v rsn st =
     (case st of (stageData, auditMap, outliersRemoved) \<Rightarrow>
        (stageData[j := setc c None (stageData ! j)],
         AList.update (t (stageData ! j), c)
           \<lparr>time = t (stageData ! j), column = c, originalValue = v, reason = rsn,
            action = REMOVED, newValue = None\<rparr> auditMap,
         outliersRemoved + 1))"

definition valid_values :: "real option list \<Rightarrow> real list" where
  "valid_values vs = List.map_filter (\<lambda>v. v) vs"

definition mean_of :: "real list \<Rightarrow> real" where
  "mean_of vals = foldl (+) 0 vals / real (length vals)"

definition stdDev_of :: "real list \<Rightarrow> real" where
  "stdDev_of vals =
     sqrt (foldl (+) 0 (map (\<lambda>x. (x - mean_of vals) ^ 2) vals) / real (length vals))"

definition sd_step :: "nat \<Rightarrow> col \<Rightarrow> real \<Rightarrow> real \<Rightarrow> detect_state \<Rightarrow> nat \<Rightarrow> detect_state" where
  "sd_step i c mean stdDev st j =
     (case getc c (fst st ! j) of
        Some v \<Rightarrow>
          if v < mean - 3 * stdDev \<or> v > mean + 3 * stdDev
          then reject j c v (SD3 (i + 1) mean stdDev) st
          else st
      | None \<Rightarrow> st)"

definition sd_col :: "nat \<Rightarrow> detect_state \<Rightarrow> col \<Rightarrow> detect_state" where
  "sd_col i st c =
     (let vals = valid_values (map (getc c) (drop 3 (fst st))) in
      if length vals < 2 then st
      else foldl (sd_step i c (mean_of vals) (stdDev_of vals)) st [3 ..< length (fst st)])"

definition hr_reason :: "nat \<Rightarrow> ProcessedDataRow list \<Rightarrow> nat \<Rightarrow> real \<Rightarrow> reason option" where
  "hr_reason i stageData j hr =
     (if hr \<le> 0 \<or> hr > 250 then Some (HR_range (i + 1))
      else if j > 0 then
        (case (HR (stageData ! (j - 1)), VO2 (stageData ! j), VO2 (stageData ! (j - 1)),
               VE (stageData ! j), VE (stageData ! (j - 1))) of
           (Some prevHr, Some currentVo2, Some prevVo2, Some currentVe, Some prevVe) \<Rightarrow>
             if hr - prevHr > 20 \<and> currentVo2 \<le> prevVo2 \<and> currentVe \<le> prevVe
             then Some (HR_spike (i + 1) (hr - prevHr)) else None
         | _ \<Rightarrow> None)
      else None)"

definition hr_step :: "nat \<Rightarrow> detect_state \<Rightarrow> nat \<Rightarrow> detect_state" where
  "hr_step i st j =
     (case HR (fst st ! j) of
        None \<Rightarrow> st
      | Some hr \<Rightarrow>
          (case hr_reason i (fst st) j hr of
             None \<Rightarrow> st
           | Some rsn \<Rightarrow> reject j Col_HR hr rsn st))"

text \<open>The body of the stage loop after the \<open>continue\<close> guard, on the slice \<open>stageData\<close>.\<close>

definition stage_body :: "nat \<Rightarrow> detect_state \<Rightarrow> detect_state" where
  "stage_body i st =
     (let st1 = foldl (sd_col i) st OUTLIER_COLS
      in foldl (hr_step i) st1 [0 ..< length (fst st1)])"

definition detect_stage :: "nat \<Rightarrow> detect_state \<Rightarrow> nat \<Rightarrow> detect_state" where
  "detect_stage numStages st i =
     (case st of (tempCleanedData, auditMap, outliersRemoved) \<Rightarrow>
        let start = i * STAGE_ROWS;
            stop = min ((i + 1) * STAGE_ROWS) (length tempCleanedData);
            stageData = take (stop - start) (drop start tempCleanedData)
        in if length stageData < STAGE_ROWS \<and> int i = int numStages - 1 then st
           else (case stage_body i (stageData, auditMap, outliersRemoved) of
                   (stageData', auditMap', outliersRemoved') \<Rightarrow>
                     (take start tempCleanedData @ stageData' @
                        drop (start + length stageData') tempCleanedData,
                      auditMap', outliersRemoved')))"

definition detect_phase :: "ProcessedDataRow list \<Rightarrow> detect_state" where
  "detect_phase data =
     (let numStages = (length data + STAGE_ROWS - 1) div STAGE_ROWS
      in foldl (detect_stage numStages) (data, [], 0) [0 ..< numStages])"

section \<open>Gap interpolator (second loop of cleanAndInterpolateData)\<close>

type_synonym clean_state = "ProcessedDataRow list \<times> auditMap \<times> int \<times> int"

text \<open>
  The two searches for the nearest non-null neighbour, bounded by the stage of \<open>i\<close>: backward
  from \<open>i - 1\<close> down to the first row of the stage, forward from \<open>i + 1\<close> to the last row of
  the stage or of the series.  \<open>None\<close> is the source's \<open>-1\<close>.
\<close>

definition find_prev :: "ProcessedDataRow list \<Rightarrow> col \<Rightarrow> nat \<Rightarrow> nat option" where
  "find_prev tempCleanedData c i =
     List.find (\<lambda>j. getc c (tempCleanedData ! j) \<noteq> None)
       (rev [(i div STAGE_ROWS) * STAGE_ROWS ..< i])"

definition find_next :: "ProcessedDataRow list \<Rightarrow> col \<Rightarrow> nat \<Rightarrow> nat option" where
  "find_next tempCleanedData c i =
     List.find (\<lambda>j. getc c (tempCleanedData ! j) \<noteq> None)
       [i + 1 ..< min ((i div STAGE_ROWS + 1) * STAGE_ROWS) (length tempCleanedData)]"

definition interpolatedValue :: "ProcessedDataRow list \<Rightarrow> col \<Rightarrow> nat \<Rightarrow> nat \<Rightarrow> nat \<Rightarrow> real option" where
  "interpolatedValue tempCleanedData c i prevIndex nextIndex =
     (case (getc c (tempCleanedData ! prevIndex), getc c (tempCleanedData ! nextIndex)) of
        (Some prevValue, Some nextValue) \<Rightarrow>
          Some (prevValue + (nextValue - prevValue) *
                 (real (i - prevIndex) / real (nextIndex - prevIndex)))
      | _ \<Rightarrow> None)"

text \<open>
  What is done with the interpolated value \<open>v\<close> of row \<open>i\<close>: the three branches on
  \<open>auditMap.get(logKey)\<close>.
\<close>

definition fill_cell :: "col \<Rightarrow> nat \<Rightarrow> real \<Rightarrow> clean_state \<Rightarrow> clean_state" where
  "fill_cell c i v st =
     (case st of (tempCleanedData, auditMap, outliersRemoved, pointsInterpolated) \<Rightarrow>
        let logKey = (t (tempCleanedData ! i), c) in
        (case map_of auditMap logKey of
           Some logEntry \<Rightarrow>
             if \<bar>originalValue logEntry - v\<bar> < 1 / 1000000
             then (tempCleanedData[i := setc c (Some (originalValue logEntry)) (tempCleanedData ! i)],
                   AList.delete logKey auditMap, outliersRemoved - 1, pointsInterpolated)
             else (tempCleanedData[i := setc c (Some v) (tempCleanedData ! i)],
                   AList.update logKey (logEntry\<lparr>action := INTERPOLATED, newValue := Some v\<rparr>)
                     auditMap,
                   outliersRemoved, pointsInterpolated + 1)
         | None \<Rightarrow>
             (tempCleanedData[i := setc c (Some v) (tempCleanedData ! i)],
              auditMap, outliersRemoved, pointsInterpolated)))"

definition interp_step :: "col \<Rightarrow> clean_state \<Rightarrow> nat \<Rightarrow> clean_state" where
  "interp_step c st i =
     (if getc c (fst st ! i) = None then
        (case (find_prev (fst st) c i, find_next (fst st) c i) of
           (Some prevIndex, Some nextIndex) \<Rightarrow>
             if nextIndex - prevIndex \<le> 3 then
               (case interpolatedValue (fst st) c i prevIndex nextIndex of
                  Some v \<Rightarrow> fill_cell c i v st
                | None \<Rightarrow> st)
             else st
         | _ \<Rightarrow> st)
      else st)"

definition interp_col :: "clean_state \<Rightarrow> col \<Rightarrow> clean_state" where
  "interp_col st c = foldl (interp_step c) st [0 ..< length (fst st)]"

definition interp_phase :: "detect_state \<Rightarrow> clean_state" where
  "interp_phase st =
     (case st of (tempCleanedData, auditMap, outliersRemoved) \<Rightarrow>
        foldl interp_col (tempCleanedData, auditMap, outliersRemoved, 0) OUTLIER_COLS)"

section \<open>cleanAndInterpolateData\<close>

record CleaningStats =
  outliersRemoved :: int
  pointsInterpolated :: int

record CleaningResult =
  cleanedData :: "ProcessedDataRow list"
  auditLog :: "AuditLogEntry list"
  stats :: CleaningStats

text \<open>
  The log is sorted by \<open>a.time.localeCompare(b.time)\<close>, which depends on the locale of the
  host: the comparison is the parameter \<open>cmp\<close> (negative, zero or positive).  The sort is
  stable.
\<close>

fun insert_entry :: "(string \<Rightarrow> string \<Rightarrow> int) \<Rightarrow> AuditLogEntry \<Rightarrow> AuditLogEntry list \<Rightarrow> AuditLogEntry list" where
  "insert_entry cmp a [] = [a]"
| "insert_entry cmp a (b # bs) =
     (if cmp (time a) (time b) \<le> 0 then a # b # bs else b # insert_entry cmp a bs)"

definition sort_log :: "(string \<Rightarrow> string \<Rightarrow> int) \<Rightarrow> AuditLogEntry list \<Rightarrow> AuditLogEntry list" where
  "sort_log cmp entries = foldr (insert_entry cmp) entries []"

definition cleanAndInterpolateData ::
  "(string \<Rightarrow> string \<Rightarrow> int) \<Rightarrow> ProcessedDataRow list \<Rightarrow> real \<Rightarrow> CleaningResult" where
  "cleanAndInterpolateData cmp data bodyWeight =
     (case interp_phase (detect_phase data) of
        (tempCleanedData, auditMap, removed, interpolated) \<Rightarrow>
          \<lparr>cleanedData = map (\<lambda>row. recalculateDerivedMetrics row bodyWeight) tempCleanedData,
           auditLog = sort_log cmp (map snd auditMap),
           stats = \<lparr>outliersRemoved = removed, pointsInterpolated = interpolated\<rparr>\<rparr>)"

section \<open>Key metrics (calculateKeyMetricsForData)\<close>

record PlateauStageSummary =
  stage :: nat
  duration :: real
  avgVo2 :: real
  deltaVo2 :: "real option"
  isPartial :: bool

text \<open>
  \<open>plateauComparison\<close> is the pair \<open>(prevStageAvg, lastStageAvg)\<close>.  The optional field
  \<open>duration\<close> of \<open>KeyMetrics\<close> is written by the callers only and is left out.
\<close>

record KeyMetrics =
  vo2max :: real
  vo2max_kg :: real
  vemax :: real
  hrmax :: real
  rermax :: real
  plateauReached :: bool
  isPeak :: bool
  plateauTime :: "string option"
  plateauComparison :: "(real \<times> real) option"
  plateauStageSummary :: "PlateauStageSummary list option"

definition STAGE_DURATION_SECONDS :: real where
  "STAGE_DURATION_SECONDS = 180"

text \<open>\<open>validX.length > 0 ? Math.max(...validX) : 0\<close>\<close>

definition max_or_0 :: "real option list \<Rightarrow> real" where
  "max_or_0 vs = (case valid_values vs of [] \<Rightarrow> 0 | x # xs \<Rightarrow> foldl max x xs)"

text \<open>The stages \<open>(startTime, endTime)\<close> of a series that lasts \<open>totalDuration\<close> seconds.\<close>

definition stages_of :: "real \<Rightarrow> (real \<times> real) list" where
  "stages_of totalDuration =
     (let numStages = nat \<lceil>totalDuration / STAGE_DURATION_SECONDS\<rceil> in
      filter (\<lambda>(startTime, endTime). endTime > startTime)
        (map (\<lambda>i. (real i * STAGE_DURATION_SECONDS,
                    min (real (i + 1) * STAGE_DURATION_SECONDS) totalDuration))
           [0 ..< numStages]))"

definition stageData_of :: "ProcessedDataRow list \<Rightarrow> real \<times> real \<Rightarrow> ProcessedDataRow list" where
  "stageData_of data stg =
     filter (\<lambda>r. timeInSeconds r \<ge> fst stg \<and> timeInSeconds r < snd stg) data"

text \<open>
  The rows whose VO2 is averaged for the stage at \<open>index\<close> (the source maps them to their
  VO2 at once, as \<open>vo2ValuesToAverage\<close>), and whether the whole partial stage was taken.
\<close>

definition window_rows :: "ProcessedDataRow list \<Rightarrow> (real \<times> real) list \<Rightarrow> nat \<Rightarrow> ProcessedDataRow list" where
  "window_rows data stages index =
     (let stg = stages ! index;
          actualDuration = snd stg - fst stg;
          isLastStage = (int index = int (length stages) - 1)
      in if isLastStage \<and> actualDuration < STAGE_DURATION_SECONDS then
           (if actualDuration > 30
            then filter (\<lambda>r. timeInSeconds r \<ge> snd stg - 30) (stageData_of data stg)
            else stageData_of data stg)
         else filter (\<lambda>r. timeInSeconds r \<ge> snd stg - 30 \<and> timeInSeconds r < snd stg) data)"

definition stage_isPartial :: "ProcessedDataRow list \<Rightarrow> (real \<times> real) list \<Rightarrow> nat \<Rightarrow> bool" where
  "stage_isPartial data stages index =
     (let stg = stages ! index in
      stageData_of data stg \<noteq> [] \<and> int index = int (length stages) - 1 \<and>
      snd stg - fst stg < STAGE_DURATION_SECONDS \<and> \<not> snd stg - fst stg > 30)"

definition stage_avgVo2 :: "ProcessedDataRow list \<Rightarrow> (real \<times> real) list \<Rightarrow> nat \<Rightarrow> real" where
  "stage_avgVo2 data stages index =
     (if stageData_of data (stages ! index) \<noteq> [] then
        (let validVo2Values = valid_values (map VO2 (window_rows data stages index)) in
         if length validVo2Values > 0
         then foldl (+) 0 validVo2Values / real (length validVo2Values) else 0)
      else 0)"

text \<open>\<open>stages.map\<close> with the variable \<open>previousAvgVo2\<close> carried from one stage to the next.\<close>

fun summarize :: "ProcessedDataRow list \<Rightarrow> (real \<times> real) list \<Rightarrow> real \<Rightarrow> nat list \<Rightarrow> PlateauStageSummary list" where
  "summarize data stages previousAvgVo2 [] = []"
| "summarize data stages previousAvgVo2 (index # rest) =
     (let avg = stage_avgVo2 data stages index in
      \<lparr>stage = index + 1,
       duration = snd (stages ! index) - fst (stages ! index),
       avgVo2 = avg,
       deltaVo2 = (if index > 0 \<and> avg > 0 \<and> previousAvgVo2 > 0
                   then Some (avg - previousAvgVo2) else None),
       isPartial = stage_isPartial data stages index\<rparr>
      # summarize data stages avg rest)"

definition plateau_summaries :: "ProcessedDataRow list \<Rightarrow> PlateauStageSummary list" where
  "plateau_summaries data =
     (let stages = stages_of (timeInSeconds (last data)) in
      summarize data stages 0 [0 ..< length stages])"

text \<open>\<open>plateauDataPoint?.t || data[data.length - 1].t\<close>: an empty label is falsy.\<close>

definition plateau_label :: "ProcessedDataRow list \<Rightarrow> real \<Rightarrow> string" where
  "plateau_label data lastStageStartTime =
     (case List.find (\<lambda>d. timeInSeconds d \<ge> lastStageStartTime) data of
        Some d \<Rightarrow> if t d \<noteq> [] then t d else t (last data)
      | None \<Rightarrow> t (last data))"

definition calculateKeyMetricsForData :: "ProcessedDataRow list \<Rightarrow> KeyMetrics" where
  "calculateKeyMetricsForData data =
     (if length data = 0 then
        \<lparr>vo2max = 0, vo2max_kg = 0, vemax = 0, hrmax = 0, rermax = 0, plateauReached = False,
         isPeak = True, plateauTime = None, plateauComparison = None,
         plateauStageSummary = None\<rparr>
      else
        (let stages = stages_of (timeInSeconds (last data));
             summary = plateau_summaries data;
             reached = (length summary \<ge> 2 \<and>
                        (case deltaVo2 (last summary) of
                           Some vo2_increase \<Rightarrow> vo2_increase < 0.15 | None \<Rightarrow> False))
         in \<lparr>vo2max = max_or_0 (map VO2 data), vo2max_kg = max_or_0 (map VO2_kg data),
             vemax = max_or_0 (map VE data), hrmax = max_or_0 (map HR data),
             rermax = max_or_0 (map RER data),
             plateauReached = reached,
             isPeak = (\<not> reached),
             plateauTime = (if reached then Some (plateau_label data (fst (last stages))) else None),
             plateauComparison =
               (if reached
                then Some (avgVo2 (summary ! (length summary - 2)), avgVo2 (last summary))
                else None),
             plateauStageSummary = Some summary\<rparr>))"

section \<open>Percentile extractor (extractPercentageDataForMetrics)\<close>

text \<open>\<open>Array.prototype.findIndex\<close>; \<open>None\<close> is the source's \<open>-1\<close>.\<close>

fun findIndex :: "('a \<Rightarrow> bool) \<Rightarrow> 'a list \<Rightarrow> nat option" where
  "findIndex P [] = None"
| "findIndex P (x # xs) = (if P x then Some 0 else map_option Suc (findIndex P xs))"

definition reaches :: "real \<Rightarrow> ProcessedDataRow \<Rightarrow> bool" where
  "reaches threshold row = (case VO2 row of Some v \<Rightarrow> v \<ge> threshold | None \<Rightarrow> False)"

definition percent_step ::
  "ProcessedDataRow list \<Rightarrow> real \<Rightarrow> ProcessedDataRow list \<times> nat list \<Rightarrow> nat \<Rightarrow>
   ProcessedDataRow list \<times> nat list" where
  "percent_step data vmax st i =
     (case st of (result, seenPercentages) \<Rightarrow>
        (case findIndex (reaches (vmax * (real i / 100))) data of
           Some foundIndex \<Rightarrow>
             if i \<notin> set seenPercentages
             then (result @ [(data ! foundIndex)\<lparr>VO2_pct_max := Some i\<rparr>], seenPercentages @ [i])
             else st
         | None \<Rightarrow> st))"

text \<open>
  The percentages the loop visits, \<open>i = 10; i <= 100; i += 10\<close>.  \<open>metrics\<close> has the type
  \<open>KeyMetrics\<close>: the guard \<open>!metrics\<close> of the source never fires on a value of that type,
  and only the guard on the empty series is kept.
\<close>

definition percent_loop :: "nat list" where
  "percent_loop = [10, 20, 30, 40, 50, 60, 70, 80, 90, 100]"

definition extractPercentageDataForMetrics :: "ProcessedDataRow list \<Rightarrow> KeyMetrics \<Rightarrow> ProcessedDataRow list" where
  "extractPercentageDataForMetrics data metrics =
     (if length data = 0 then []
      else fst (foldl (percent_step data (vo2max metrics)) ([], []) percent_loop))"

section \<open>AUC integrator (calculateAuc)\<close>

record AucResult =
  auc_value :: real
  startTime :: real
  endTime :: real
  startVo2 :: real
  endVo2 :: real

text \<open>The backward loop for \<open>endIndex\<close>: \<open>scan_back P xs n\<close> tries \<open>n - 1\<close>, \<open>n - 2\<close>, ... , \<open>0\<close>.\<close>

fun scan_back :: "('a \<Rightarrow> bool) \<Rightarrow> 'a list \<Rightarrow> nat \<Rightarrow> nat option" where
  "scan_back P xs 0 = None"
| "scan_back P xs (Suc i) = (if P (xs ! i) then Some i else scan_back P xs i)"

definition at_most :: "real \<Rightarrow> ProcessedDataRow \<Rightarrow> bool" where
  "at_most threshold row = (case VO2 row of Some v \<Rightarrow> v \<le> threshold | None \<Rightarrow> False)"

definition auc_step :: "ProcessedDataRow list \<Rightarrow> real \<Rightarrow> nat \<Rightarrow> real" where
  "auc_step data auc i =
     (case (VO2 (data ! i), VO2 (data ! (i + 1))) of
        (Some vo2_1, Some vo2_2) \<Rightarrow>
          auc + ((vo2_1 + vo2_2) / 2) *
                ((timeInSeconds (data ! (i + 1)) - timeInSeconds (data ! i)) / 60)
      | _ \<Rightarrow> auc)"

definition calculateAuc :: "ProcessedDataRow list \<Rightarrow> real \<Rightarrow> real \<Rightarrow> real \<Rightarrow> AucResult option" where
  "calculateAuc data vmax startPercent endPercent =
     (let startV = vmax * (startPercent / 100);
          endV = vmax * (endPercent / 100)
      in case (findIndex (reaches startV) data, scan_back (at_most endV) data (length data)) of
           (Some startIndex, Some endIndex) \<Rightarrow>
             if startIndex \<ge> endIndex then None
             else Some \<lparr>auc_value = foldl (auc_step data) 0 [startIndex ..< endIndex],
                        startTime = timeInSeconds (data ! startIndex),
                        endTime = timeInSeconds (data ! endIndex),
                        startVo2 = startV, endVo2 = endV\<rparr>
         | _ \<Rightarrow> None)"

section \<open>Notions the claims are stated with\<close>

text \<open>
  These follow the words of the specification, not the source: the first and the last index
  of a list at which a predicate holds, and the trapezoid between two adjacent samples
  (zero when one of the two VO2 values is \<open>null\<close>).
\<close>

definition first_index :: "('a \<Rightarrow> bool) \<Rightarrow> 'a list \<Rightarrow> nat \<Rightarrow> bool" where
  "first_index P xs k \<longleftrightarrow> k < length xs \<and> P (xs ! k) \<and> (\<forall>j<k. \<not> P (xs ! j))"

definition last_index :: "('a \<Rightarrow> bool) \<Rightarrow> 'a list \<Rightarrow> nat \<Rightarrow> bool" where
  "last_index P xs k \<longleftrightarrow> k < length xs \<and> P (xs ! k) \<and> (\<forall>j<length xs. k < j \<longrightarrow> \<not> P (xs ! j))"

definition trapezoid :: "ProcessedDataRow list \<Rightarrow> nat \<Rightarrow> real" where
  "trapezoid data i =
     (case (VO2 (data ! i), VO2 (data ! (i + 1))) of
        (Some a, Some b) \<Rightarrow>
          (a + b) / 2 * ((timeInSeconds (data ! (i + 1)) - timeInSeconds (data ! i)) / 60)
      | _ \<Rightarrow> 0)"

text \<open>
  The terminal window of a stage from \<open>lo\<close> to \<open>hi\<close>, in the words of the
  specification: the rows of the last 30 seconds of the stage; for the final stage of the
  series, when it is shorter than 180 seconds and not longer than 30 seconds, the rows of the
  whole stage.  \<open>vo2_average\<close> is the mean of the VO2 values that are numbers, 0 when there is
  none.
\<close>

definition terminal_rows :: "ProcessedDataRow list \<Rightarrow> real \<Rightarrow> real \<Rightarrow> bool \<Rightarrow> ProcessedDataRow list" where
  "terminal_rows data lo hi finalStage =
     (if finalStage \<and> hi - lo < 180 \<and> hi - lo \<le> 30
      then filter (\<lambda>r. lo \<le> timeInSeconds r \<and> timeInSeconds r < hi) data
      else filter (\<lambda>r. hi - 30 \<le> timeInSeconds r \<and> timeInSeconds r < hi) data)"

definition vo2_average :: "ProcessedDataRow list \<Rightarrow> real" where
  "vo2_average rows =
     (let vs = [the v. v \<leftarrow> map VO2 rows, v \<noteq> None]
      in if vs = [] then 0 else sum_list vs / real (length vs))"

section \<open>Concrete series\<close>

definition smooth_in :: "ProcessedDataRow list" where
  "smooth_in = [(blank ''0:00:10'' 10)\<lparr>VO2 := Some 1\<rparr>, (blank ''0:00:20'' 20)\<lparr>VO2 := Some 2\<rparr>,
     (blank ''0:00:30'' 30)\<lparr>VO2 := Some 3\<rparr>]"

definition gap_in :: "ProcessedDataRow list" where
  "gap_in = [(blank ''0:00:10'' 10)\<lparr>VO2 := Some 2\<rparr>, blank ''0:00:20'' 20,
     (blank ''0:00:30'' 30)\<lparr>VO2 := Some 3\<rparr>]"

definition spike_in :: "ProcessedDataRow list" where
  "spike_in = [(blank ''0:00:10'' 10)\<lparr>HR := Some 100\<rparr>, blank ''0:00:20'' 20,
     (blank ''0:00:30'' 30)\<lparr>HR := Some 160\<rparr>]"

definition spike_entry :: AuditLogEntry where
  "spike_entry = \<lparr>time = ''0:00:20'', column = Col_HR, originalValue = 130,
     reason = HR_spike 1 30, action = REMOVED, newValue = None\<rparr>"

definition auc_in :: "ProcessedDataRow list" where
  "auc_in = [(blank ''0:00:00'' 0)\<lparr>VO2 := Some 1\<rparr>, (blank ''0:00:10'' 10)\<lparr>VO2 := Some (5 / 2)\<rparr>,
     (blank ''0:00:20'' 20)\<lparr>VO2 := Some (13 / 5)\<rparr>, (blank ''0:00:30'' 30)\<lparr>VO2 := Some (7 / 2)\<rparr>]"

definition pct_in :: "ProcessedDataRow list" where
  "pct_in = [(blank ''0:00:00'' 0)\<lparr>VO2 := Some 1\<rparr>, (blank ''0:00:10'' 10)\<lparr>VO2 := Some 2\<rparr>]"

definition plat_in :: "ProcessedDataRow list" where
  "plat_in = [(blank ''0:02:40'' 160)\<lparr>VO2 := Some 3\<rparr>, (blank ''0:02:50'' 170)\<lparr>VO2 := Some 3\<rparr>,
     (blank ''0:05:40'' 340)\<lparr>VO2 := Some (31 / 10)\<rparr>, (blank ''0:05:50'' 350)\<lparr>VO2 := Some (31 / 10)\<rparr>,
     (blank ''0:06:00'' 360)\<lparr>VO2 := Some 5\<rparr>]"

definition vo2_row :: "string \<Rightarrow> real \<Rightarrow> real \<Rightarrow> ProcessedDataRow" where
  "vo2_row lbl s v = (blank lbl s)\<lparr>VO2 := Some v\<rparr>"

text \<open>One stage of 18 rows: VO2 is 2 everywhere but in the rows 0 and 10, where it is 1000.\<close>

definition sd_in :: "ProcessedDataRow list" where
  "sd_in =
     [vo2_row ''0:00:10'' 10 1000, vo2_row ''0:00:20'' 20 2, vo2_row ''0:00:30'' 30 2,
      vo2_row ''0:00:40'' 40 2, vo2_row ''0:00:50'' 50 2, vo2_row ''0:01:00'' 60 2,
      vo2_row ''0:01:10'' 70 2, vo2_row ''0:01:20'' 80 2, vo2_row ''0:01:30'' 90 2,
      vo2_row ''0:01:40'' 100 2, vo2_row ''0:01:50'' 110 1000, vo2_row ''0:02:00'' 120 2,
      vo2_row ''0:02:10'' 130 2, vo2_row ''0:02:20'' 140 2, vo2_row ''0:02:30'' 150 2,
      vo2_row ''0:02:40'' 160 2, vo2_row ''0:02:50'' 170 2, vo2_row ''0:03:00'' 180 2]"

definition sd_vals :: "real list" where
  "sd_vals = [2, 2, 2, 2, 2, 2, 2, 1000, 2, 2, 2, 2, 2, 2, 2]"

text \<open>
  One stage of 18 rows with heart rates 100, 300, 120 in the rows 1, 2, 3 and every other
  cell \<open>null\<close>.
\<close>

definition hr_head :: "ProcessedDataRow list" where
  "hr_head = [blank ''0:00:10'' 10, (blank ''0:00:20'' 20)\<lparr>HR := Some 100\<rparr>,
     (blank ''0:00:30'' 30)\<lparr>HR := Some 300\<rparr>, (blank ''0:00:40'' 40)\<lparr>HR := Some 120\<rparr>]"

definition hr_tail :: "ProcessedDataRow list" where
  "hr_tail = [blank ''0:00:50'' 50, blank ''0:01:00'' 60, blank ''0:01:10'' 70,
     blank ''0:01:20'' 80, blank ''0:01:30'' 90, blank ''0:01:40'' 100, blank ''0:01:50'' 110,
     blank ''0:02:00'' 120, blank ''0:02:10'' 130, blank ''0:02:20'' 140, blank ''0:02:30'' 150,
     blank ''0:02:40'' 160, blank ''0:02:50'' 170, blank ''0:03:00'' 180]"

definition hr_in :: "ProcessedDataRow list" where
  "hr_in = hr_head @ hr_tail"

definition hr_entry :: AuditLogEntry where
  "hr_entry = \<lparr>time = ''0:00:30'', column = Col_HR, originalValue = 300, reason = HR_range 1,
     action = REMOVED, newValue = None\<rparr>"

text \<open>The first four rows of \<open>hr_in\<close> after the detector, and after the interpolator.\<close>

definition hr_mid :: "ProcessedDataRow list" where
  "hr_mid = [blank ''0:00:10'' 10, (blank ''0:00:20'' 20)\<lparr>HR := Some 100\<rparr>,
     blank ''0:00:30'' 30, (blank ''0:00:40'' 40)\<lparr>HR := Some 120\<rparr>]"

definition hr_done :: "ProcessedDataRow list" where
  "hr_done = [blank ''0:00:10'' 10, (blank ''0:00:20'' 20)\<lparr>HR := Some 100\<rparr>,
     (blank ''0:00:30'' 30)\<lparr>HR := Some 110\<rparr>, (blank ''0:00:40'' 40)\<lparr>HR := Some 120\<rparr>]"

text \<open>
  Four rows over two stages of 180 seconds; the rows at 10 and at 360 seconds lie in no
  terminal window.
\<close>

definition window_in :: "ProcessedDataRow list" where
  "window_in = [(blank ''0:00:10'' 10)\<lparr>VO2 := Some 1\<rparr>, (blank ''0:02:50'' 170)\<lparr>VO2 := Some 3\<rparr>,
     (blank ''0:05:50'' 350)\<lparr>VO2 := Some (31 / 10)\<rparr>, (blank ''0:06:00'' 360)\<lparr>VO2 := Some 5\<rparr>]"

section \<open>Runs of the detector\<close>

text \<open>
  Every change the detector makes to its state is a \<open>reject\<close> of a cell that holds a number.
  \<open>rejects_on A st st'\<close> says that \<open>st'\<close> comes from \<open>st\<close> by a sequence of such rejections,
  each of a cell (row index, column) in \<open>A\<close>.  \<open>quiet rows lbl c\<close> says that every row labelled
  \<open>lbl\<close> has \<open>null\<close> in column \<open>c\<close>.
\<close>

inductive rejects_on :: "(nat \<times> col) set \<Rightarrow> detect_state \<Rightarrow> detect_state \<Rightarrow> bool"
  for A :: "(nat \<times> col) set" and st :: detect_state where
  rejects_none: "rejects_on A st st"
| rejects_more:
    "rejects_on A st (rows, m, n) \<Longrightarrow> (j, c) \<in> A \<Longrightarrow> j < length rows \<Longrightarrow>
     getc c (rows ! j) = Some v \<Longrightarrow> rejects_on A st (reject j c v rsn (rows, m, n))"

definition quiet :: "ProcessedDataRow list \<Rightarrow> string \<Rightarrow> col \<Rightarrow> bool" where
  "quiet rows lbl c \<longleftrightarrow> (\<forall>r\<in>set rows. t r = lbl \<longrightarrow> getc c r = None)"

text \<open>
  What the interpolator keeps true of its state when the time labels are pairwise distinct:
  the keys of the map are pairwise distinct, \<open>outliersRemoved\<close> is the number of entries,
  \<open>pointsInterpolated\<close> is the number of INTERPOLATED entries, and the cell of an
  INTERPOLATED entry holds a number.
\<close>

definition log_inv :: "clean_state \<Rightarrow> bool" where
  "log_inv st \<longleftrightarrow>
     (case st of (rows, m, removed, interpolated) \<Rightarrow>
        distinct (map t rows) \<and> distinct (map fst m) \<and>
        int (length m) = removed \<and>
        int (length (filter (\<lambda>e. action e = INTERPOLATED) (map snd m))) = interpolated \<and>
        (\<forall>p\<in>set m. action (snd p) = INTERPOLATED \<longrightarrow>
           (\<forall>r\<in>set rows. t r = fst (fst p) \<longrightarrow> getc (snd (fst p)) r \<noteq> None)))"

section \<open>Basic facts about rows\<close>

lemma getc_setc: "getc c (setc c' v r) = (if c = c' then v else getc c r)"
  by (cases c; cases c') simp_all

section \<open>First and last index\<close>

lemma findIndex_None: "(findIndex P xs = None) \<longleftrightarrow> (\<forall>x\<in>set xs. \<not> P x)"
  by (induction xs) auto

lemma findIndex_Some: "(findIndex P xs = Some k) \<longleftrightarrow> first_index P xs k"
proof (induction xs arbitrary: k)
  case Nil show ?case by (simp add: first_index_def)
next
  case (Cons x xs)
  show ?case
  proof (cases "P x")
    case True
    then show ?thesis by (cases k) (auto simp: first_index_def)
  next
    case False
    show ?thesis
    proof (cases k)
      case 0 with False show ?thesis by (auto simp: first_index_def)
    next
      case (Suc k')
      have "(\<forall>j<Suc k'. \<not> P ((x # xs) ! j)) \<longleftrightarrow> (\<forall>j<k'. \<not> P (xs ! j))"
        using False by (auto simp: less_Suc_eq_0_disj)
      with Suc False Cons [of k'] show ?thesis by (auto simp: first_index_def)
    qed
  qed
qed

lemma scan_back_None: "(scan_back P xs n = None) \<longleftrightarrow> (\<forall>j<n. \<not> P (xs ! j))"
  by (induction n) (auto simp: less_Suc_eq)

lemma scan_back_Some:
  "(scan_back P xs n = Some k) \<longleftrightarrow> (k < n \<and> P (xs ! k) \<and> (\<forall>j<n. k < j \<longrightarrow> \<not> P (xs ! j)))"
proof (induction n)
  case 0 show ?case by simp
next
  case (Suc n)
  show ?case
  proof (cases "P (xs ! n)")
    case True
    then show ?thesis
      by (auto simp: less_Suc_eq)
  next
    case False
    with Suc show ?thesis by (auto simp: less_Suc_eq)
  qed
qed

lemma scan_back_last: "(scan_back P xs (length xs) = Some k) \<longleftrightarrow> last_index P xs k"
  by (simp add: scan_back_Some last_index_def)

lemma first_index_unique: "first_index P xs a \<Longrightarrow> first_index P xs b \<Longrightarrow> a = b"
  unfolding first_index_def by (metis linorder_neqE_nat)

lemma last_index_unique: "last_index P xs a \<Longrightarrow> last_index P xs b \<Longrightarrow> a = b"
  unfolding last_index_def by (metis linorder_neqE_nat)

section \<open>Rolling smoother\<close>

lemma foldl_upd_length:
  "length (foldl (\<lambda>ys i. ys[i := f i (ys ! i)]) xs is) = length xs"
  by (induction "is" arbitrary: xs) simp_all

lemma foldl_upd_nth:
  "k < length xs \<Longrightarrow>
   foldl (\<lambda>ys i. ys[i := f i (ys ! i)]) xs [a ..< b] ! k =
     (if a \<le> k \<and> k < b then f k (xs ! k) else xs ! k)"
proof (induction b)
  case 0 then show ?case by simp
next
  case (Suc b)
  define ys where "ys = foldl (\<lambda>ys i. ys[i := f i (ys ! i)]) xs [a ..< b]"
  have len: "length ys = length xs" by (simp add: ys_def foldl_upd_length)
  have IH: "ys ! k = (if a \<le> k \<and> k < b then f k (xs ! k) else xs ! k)"
    using Suc by (simp add: ys_def)
  show ?case
  proof (cases "a \<le> b")
    case True
    then have "foldl (\<lambda>ys i. ys[i := f i (ys ! i)]) xs [a ..< Suc b] = ys[b := f b (ys ! b)]"
      by (simp add: ys_def)
    then show ?thesis using IH len Suc.prems True by (cases "k = b") (auto simp: nth_list_update)
  next
    case False then show ?thesis using IH by (auto simp: ys_def)
  qed
qed

lemma length_smooth_loop: "length (smooth_loop data) = length data"
  by (simp add: smooth_loop_def foldl_upd_length)

lemma smooth_loop_nth:
  "i < length data \<Longrightarrow>
   smooth_loop data ! i = (if 2 \<le> i then smooth_row data i (data ! i) else data ! i)"
  unfolding smooth_loop_def by (simp add: foldl_upd_nth)

lemma getc_smooth_row: "getc c (smooth_row data i row) = smooth_cell data i c"
  by (cases c) (simp_all add: smooth_row_def colsToSmooth_def)

lemma getc_recalc: "getc c (recalculateDerivedMetrics row bw) = getc c row"
  by (cases c) (simp_all add: recalculateDerivedMetrics_def Let_def)

lemma recalc_idem:
  "recalculateDerivedMetrics (recalculateDerivedMetrics row bw) bw = recalculateDerivedMetrics row bw"
  by (simp add: recalculateDerivedMetrics_def Let_def)

text \<open>
  Claim C7, amended.  On a series of at least 3 rows the result has the length of the
  input; for every primary channel \<open>c\<close> the cell at an index \<open>i \<ge> 2\<close> is the mean of the input
  cells at \<open>i - 2\<close>, \<open>i - 1\<close>, \<open>i\<close> when all three are numbers and \<open>null\<close> otherwise, the
  cells at the indices 0 and 1 are the input's, and every row carries the derived channels
  that \<open>recalculateDerivedMetrics\<close> computes from its own primary channels and the body
  weight.  A series of fewer than 3 rows is returned as it is, derived channels included:
  they are not recomputed.
\<close>

theorem applySmoothing_window:
  "(3 \<le> length data \<longrightarrow>
      length (applySmoothing data bodyWeight) = length data \<and>
      (\<forall>i<length data. \<forall>c.
         getc c (applySmoothing data bodyWeight ! i) =
           (if 2 \<le> i
            then (case (getc c (data ! (i - 2)), getc c (data ! (i - 1)), getc c (data ! i)) of
                    (Some v1, Some v2, Some v3) \<Rightarrow> Some ((v1 + v2 + v3) / 3)
                  | _ \<Rightarrow> None)
            else getc c (data ! i))) \<and>
      (\<forall>r \<in> set (applySmoothing data bodyWeight). recalculateDerivedMetrics r bodyWeight = r)) \<and>
   (length data < 3 \<longrightarrow> applySmoothing data bodyWeight = data)"
proof (intro conjI impI)
  assume len: "3 \<le> length data"
  then have unf: "applySmoothing data bodyWeight =
       map (\<lambda>row. recalculateDerivedMetrics row bodyWeight) (smooth_loop data)"
    by (simp add: applySmoothing_def)
  show "length (applySmoothing data bodyWeight) = length data"
    by (simp add: unf length_smooth_loop)
  show "\<forall>i<length data. \<forall>c.
         getc c (applySmoothing data bodyWeight ! i) =
           (if 2 \<le> i
            then (case (getc c (data ! (i - 2)), getc c (data ! (i - 1)), getc c (data ! i)) of
                    (Some v1, Some v2, Some v3) \<Rightarrow> Some ((v1 + v2 + v3) / 3)
                  | _ \<Rightarrow> None)
            else getc c (data ! i))"
    by (simp add: unf length_smooth_loop getc_recalc smooth_loop_nth getc_smooth_row
        smooth_cell_def)
  show "\<forall>r \<in> set (applySmoothing data bodyWeight). recalculateDerivedMetrics r bodyWeight = r"
    by (auto simp: unf recalc_idem)
next
  assume "length data < 3"
  then show "applySmoothing data bodyWeight = data" by (simp add: applySmoothing_def)
qed

text \<open>The theorem at a series of three rows with VO2 1, 2, 3, and at its first two rows.\<close>

theorem applySmoothing_window_witness:
  "3 \<le> length smooth_in \<and> getc Col_VO2 (applySmoothing smooth_in 70 ! 2) = Some 2 \<and>
   getc Col_HR (applySmoothing smooth_in 70 ! 2) = None \<and>
   getc Col_VO2 (applySmoothing smooth_in 70 ! 1) = Some 2 \<and>
   applySmoothing (take 2 smooth_in) 70 = take 2 smooth_in"
proof -
  have len: "3 \<le> length smooth_in" "length (take 2 smooth_in) < 3"
    by (simp_all add: smooth_in_def)
  note long = applySmoothing_window [of smooth_in 70, THEN conjunct1, rule_format, OF len(1)]
  note cell = long [THEN conjunct2, THEN conjunct1, rule_format]
  have "getc Col_VO2 (applySmoothing smooth_in 70 ! 2) = Some 2"
    using cell [of 2 Col_VO2] by (simp add: smooth_in_def blank_def)
  moreover have "getc Col_HR (applySmoothing smooth_in 70 ! 2) = None"
    using cell [of 2 Col_HR] by (simp add: smooth_in_def blank_def)
  moreover have "getc Col_VO2 (applySmoothing smooth_in 70 ! 1) = Some 2"
    using cell [of 1 Col_VO2] by (simp add: smooth_in_def blank_def)
  moreover have "applySmoothing (take 2 smooth_in) 70 = take 2 smooth_in"
    using applySmoothing_window [of "take 2 smooth_in" 70] len(2) by blast
  ultimately show ?thesis using len(1) by blast
qed

text \<open>
  One row with VO2 2 and no VO2/kg, body weight 70: the row comes back with VO2/kg still
  \<open>null\<close>, where recomputing gives 2000 / 70.
\<close>

theorem applySmoothing_short_counterexample:
  "VO2 (applySmoothing [(blank ''0:00:10'' 10)\<lparr>VO2 := Some 2\<rparr>] 70 ! 0) = Some 2 \<and>
   VO2_kg (applySmoothing [(blank ''0:00:10'' 10)\<lparr>VO2 := Some 2\<rparr>] 70 ! 0) = None \<and>
   VO2_kg (recalculateDerivedMetrics (applySmoothing [(blank ''0:00:10'' 10)\<lparr>VO2 := Some 2\<rparr>] 70 ! 0) 70)
      = Some (200 / 7)"
  by (simp add: applySmoothing_def blank_def recalculateDerivedMetrics_def)

section \<open>Gap interpolator: one visit of the loop\<close>

lemma find_rev_upt:
  "(List.find P (rev [a ..< b]) = Some p) \<longleftrightarrow>
     (a \<le> p \<and> p < b \<and> P p \<and> (\<forall>j. p < j \<and> j < b \<longrightarrow> \<not> P j))"
proof (induction b)
  case 0 show ?case by simp
next
  case (Suc b)
  show ?case
  proof (cases "a \<le> b")
    case False then show ?thesis by auto
  next
    case True
    show ?thesis
    proof (cases "P b")
      case True
      with \<open>a \<le> b\<close> show ?thesis
        by (auto simp: less_Suc_eq)
    next
      case False
      with \<open>a \<le> b\<close> Suc show ?thesis
        by (auto simp: less_Suc_eq)
    qed
  qed
qed

lemma find_upt:
  "(List.find P [a ..< b] = Some n) \<longleftrightarrow>
     (a \<le> n \<and> n < b \<and> P n \<and> (\<forall>j. a \<le> j \<and> j < n \<longrightarrow> \<not> P j))"
proof -
  have "(List.find P [a ..< b] = Some n) \<longleftrightarrow>
     (\<exists>k<length [a ..< b]. P ([a ..< b] ! k) \<and> n = [a ..< b] ! k \<and> (\<forall>j<k. \<not> P ([a ..< b] ! j)))"
    by (simp only: find_Some_iff)
  also have "\<dots> \<longleftrightarrow> (a \<le> n \<and> n < b \<and> P n \<and> (\<forall>j. a \<le> j \<and> j < n \<longrightarrow> \<not> P j))"
  proof
    assume "\<exists>k<length [a ..< b]. P ([a ..< b] ! k) \<and> n = [a ..< b] ! k \<and> (\<forall>j<k. \<not> P ([a ..< b] ! j))"
    then obtain k where k: "k < b - a" "P (a + k)" "n = a + k" "\<forall>j<k. \<not> P (a + j)"
      by auto
    have "\<not> P j" if "a \<le> j" "j < n" for j
      using k(4) [rule_format, of "j - a"] that k(3) by simp
    with k show "a \<le> n \<and> n < b \<and> P n \<and> (\<forall>j. a \<le> j \<and> j < n \<longrightarrow> \<not> P j)" by auto
  next
    assume r: "a \<le> n \<and> n < b \<and> P n \<and> (\<forall>j. a \<le> j \<and> j < n \<longrightarrow> \<not> P j)"
    then have "n - a < length [a ..< b] \<and> P ([a ..< b] ! (n - a)) \<and> n = [a ..< b] ! (n - a) \<and>
        (\<forall>j<n - a. \<not> P ([a ..< b] ! j))"
      by auto
    then show "\<exists>k<length [a ..< b]. P ([a ..< b] ! k) \<and> n = [a ..< b] ! k \<and> (\<forall>j<k. \<not> P ([a ..< b] ! j))"
      by blast
  qed
  finally show ?thesis .
qed

lemma find_prev_nearest:
  assumes "p < i" "p div STAGE_ROWS = i div STAGE_ROWS" "getc c (rows ! p) \<noteq> None"
      "\<forall>j. p < j \<and> j < i \<longrightarrow> getc c (rows ! j) = None"
  shows "find_prev rows c i = Some p"
proof -
  have "(i div STAGE_ROWS) * STAGE_ROWS \<le> p"
    using assms(2) by (simp add: STAGE_ROWS_def)
  with assms show ?thesis unfolding find_prev_def find_rev_upt by auto
qed

lemma find_next_nearest:
  assumes "i < n" "n < length rows" "n div STAGE_ROWS = i div STAGE_ROWS" "getc c (rows ! n) \<noteq> None"
      "\<forall>j. i < j \<and> j < n \<longrightarrow> getc c (rows ! j) = None"
  shows "find_next rows c i = Some n"
proof -
  have "n < (i div STAGE_ROWS + 1) * STAGE_ROWS"
    using assms(3) by (simp add: STAGE_ROWS_def)
  with assms show ?thesis unfolding find_next_def find_upt by auto
qed


lemma interp_step_unfold:
  assumes "getc c (rows ! i) = None"
    and "p < i" "p div STAGE_ROWS = i div STAGE_ROWS" "getc c (rows ! p) = Some pv"
      "\<forall>j. p < j \<and> j < i \<longrightarrow> getc c (rows ! j) = None"
    and "i < n" "n < length rows" "n div STAGE_ROWS = i div STAGE_ROWS" "getc c (rows ! n) = Some nv"
      "\<forall>j. i < j \<and> j < n \<longrightarrow> getc c (rows ! j) = None"
    and "n - p \<le> 3"
  shows "interp_step c (rows, m, a, b) i =
     fill_cell c i (pv + (nv - pv) * (real (i - p) / real (n - p))) (rows, m, a, b)"
proof -
  have "find_prev rows c i = Some p"
    using assms(2-5) by (intro find_prev_nearest) simp_all
  moreover have "find_next rows c i = Some n"
    using assms(6-10) by (intro find_next_nearest) simp_all
  ultimately show ?thesis
    using assms(1,4,9,11) by (simp add: interp_step_def interpolatedValue_def)
qed

text \<open>
  Claim C4.  When the loop visits a \<open>null\<close> cell at row \<open>i\<close> whose nearest non-null
  neighbours \<open>p\<close> and \<open>n\<close> lie in the stage of \<open>i\<close> at most 3 rows apart, the audit map holds
  a REMOVED entry for the key of the cell, and the interpolated value differs from the
  entry's original value by less than \<open>1e-6\<close>, then the original value is written back into
  the row, the entry is deleted from the map and \<open>outliersRemoved\<close> goes down by one;
  \<open>pointsInterpolated\<close> stays.
\<close>

theorem interp_step_no_op:
  assumes "i < length rows" "getc c (rows ! i) = None"
    and "p < i" "p div STAGE_ROWS = i div STAGE_ROWS" "getc c (rows ! p) = Some pv"
      "\<forall>j. p < j \<and> j < i \<longrightarrow> getc c (rows ! j) = None"
    and "i < n" "n < length rows" "n div STAGE_ROWS = i div STAGE_ROWS" "getc c (rows ! n) = Some nv"
      "\<forall>j. i < j \<and> j < n \<longrightarrow> getc c (rows ! j) = None"
    and "n - p \<le> 3"
    and "map_of m (t (rows ! i), c) = Some e" "action e = REMOVED"
    and "\<bar>originalValue e - (pv + (nv - pv) * (real (i - p) / real (n - p)))\<bar> < 1 / 1000000"
  shows "interp_step c (rows, m, removed, interpolated) i =
           (rows[i := setc c (Some (originalValue e)) (rows ! i)],
            AList.delete (t (rows ! i), c) m, removed - 1, interpolated) \<and>
         getc c (rows[i := setc c (Some (originalValue e)) (rows ! i)] ! i) = Some (originalValue e) \<and>
         map_of (AList.delete (t (rows ! i), c) m) (t (rows ! i), c) = None"
proof -
  have "interp_step c (rows, m, removed, interpolated) i =
     fill_cell c i (pv + (nv - pv) * (real (i - p) / real (n - p))) (rows, m, removed, interpolated)"
    using assms(2-12) by (rule interp_step_unfold)
  then show ?thesis
    using assms(1,13,15) by (simp add: fill_cell_def getc_setc delete_conv')
qed

text \<open>
  Heart rates 100, \<open>null\<close>, 160 with a REMOVED entry of original value 130 for the middle
  row: the interpolated value is 130, and the entry goes.
\<close>

theorem interp_step_no_op_witness:
  "interp_step Col_HR (spike_in, [((''0:00:20'', Col_HR), spike_entry)], 1, 0) 1 =
     (spike_in[1 := setc Col_HR (Some 130) (spike_in ! 1)], [], 0, 0)"
proof -
  have "interp_step Col_HR (spike_in, [((''0:00:20'', Col_HR), spike_entry)], 1, 0) 1 =
           (spike_in[1 := setc Col_HR (Some (originalValue spike_entry)) (spike_in ! 1)],
            AList.delete (t (spike_in ! 1), Col_HR) [((''0:00:20'', Col_HR), spike_entry)], 1 - 1, 0)"
    by (rule interp_step_no_op [where p = 0 and n = 2 and pv = 100 and nv = 160, THEN conjunct1])
      (auto simp add: spike_in_def spike_entry_def blank_def STAGE_ROWS_def)
  then show ?thesis
    by (simp add: spike_in_def spike_entry_def blank_def)
qed


text \<open>
  Claim C5, amended.  When the loop visits a \<open>null\<close> cell at row \<open>i\<close> whose nearest non-null
  neighbours \<open>p\<close> and \<open>n\<close> lie in the stage of \<open>i\<close> with \<open>n - p \<le> 3\<close>, and \<open>v\<close> is
  \<open>prev + (next - prev) (i - p) / (n - p)\<close>: with no entry for the key, the cell becomes
  \<open>v\<close> and neither the map nor a counter changes (no entry is created); with an entry whose
  original value is \<open>1e-6\<close> or more away from \<open>v\<close>, the cell becomes \<open>v\<close>, the entry's action
  becomes INTERPOLATED with \<open>v\<close> as its new value, and \<open>pointsInterpolated\<close> goes up by one;
  with an entry whose original value is nearer than \<open>1e-6\<close>, the original value is restored
  and the entry deleted.
\<close>

theorem interp_step_fill:
  assumes "i < length rows" "getc c (rows ! i) = None"
    and "p < i" "p div STAGE_ROWS = i div STAGE_ROWS" "getc c (rows ! p) = Some pv"
      "\<forall>j. p < j \<and> j < i \<longrightarrow> getc c (rows ! j) = None"
    and "i < n" "n < length rows" "n div STAGE_ROWS = i div STAGE_ROWS" "getc c (rows ! n) = Some nv"
      "\<forall>j. i < j \<and> j < n \<longrightarrow> getc c (rows ! j) = None"
    and "n - p \<le> 3"
  shows "interp_step c (rows, m, removed, interpolated) i =
     (let v = pv + (nv - pv) * (real (i - p) / real (n - p)); logKey = (t (rows ! i), c) in
      case map_of m logKey of
        None \<Rightarrow> (rows[i := setc c (Some v) (rows ! i)], m, removed, interpolated)
      | Some e \<Rightarrow>
          if \<bar>originalValue e - v\<bar> < 1 / 1000000
          then (rows[i := setc c (Some (originalValue e)) (rows ! i)],
                AList.delete logKey m, removed - 1, interpolated)
          else (rows[i := setc c (Some v) (rows ! i)],
                AList.update logKey (e\<lparr>action := INTERPOLATED, newValue := Some v\<rparr>) m,
                removed, interpolated + 1))"
proof -
  have "interp_step c (rows, m, removed, interpolated) i =
     fill_cell c i (pv + (nv - pv) * (real (i - p) / real (n - p))) (rows, m, removed, interpolated)"
    using assms(2-12) by (rule interp_step_unfold)
  then show ?thesis
    by (simp add: fill_cell_def Let_def split: option.split)
qed

text \<open>
  Heart rates 100, \<open>null\<close>, 160 with a REMOVED entry of original value 190 for the middle
  row: the cell becomes 130 and the entry is upgraded.
\<close>

theorem interp_step_fill_witness:
  "interp_step Col_HR (spike_in, [((''0:00:20'', Col_HR), spike_entry\<lparr>originalValue := 190\<rparr>)], 1, 0) 1 =
     (spike_in[1 := setc Col_HR (Some 130) (spike_in ! 1)],
      [((''0:00:20'', Col_HR), spike_entry\<lparr>originalValue := 190, action := INTERPOLATED, newValue := Some 130\<rparr>)],
      1, 1)"
proof -
  note th = interp_step_fill [where rows = spike_in and i = 1 and c = Col_HR and p = 0 and n = 2
      and pv = 100 and nv = 160
      and m = "[((''0:00:20'', Col_HR), spike_entry\<lparr>originalValue := 190\<rparr>)]"
      and removed = 1 and interpolated = 0]
  have "interp_step Col_HR (spike_in, [((''0:00:20'', Col_HR), spike_entry\<lparr>originalValue := 190\<rparr>)], 1, 0) 1 =
     (let v = 100 + (160 - 100) * (real (1 - 0) / real (2 - 0)); logKey = (t (spike_in ! 1), Col_HR) in
      case map_of [((''0:00:20'', Col_HR), spike_entry\<lparr>originalValue := 190\<rparr>)] logKey of
        None \<Rightarrow> (spike_in[1 := setc Col_HR (Some v) (spike_in ! 1)],
            [((''0:00:20'', Col_HR), spike_entry\<lparr>originalValue := 190\<rparr>)], 1, 0)
      | Some e \<Rightarrow>
          if \<bar>originalValue e - v\<bar> < 1 / 1000000
          then (spike_in[1 := setc Col_HR (Some (originalValue e)) (spike_in ! 1)],
                AList.delete logKey [((''0:00:20'', Col_HR), spike_entry\<lparr>originalValue := 190\<rparr>)], 1 - 1, 0)
          else (spike_in[1 := setc Col_HR (Some v) (spike_in ! 1)],
                AList.update logKey (e\<lparr>action := INTERPOLATED, newValue := Some v\<rparr>)
                  [((''0:00:20'', Col_HR), spike_entry\<lparr>originalValue := 190\<rparr>)],
                1, 0 + 1))"
    by (rule th) (auto simp add: spike_in_def blank_def STAGE_ROWS_def)
  then show ?thesis
    by (simp add: spike_in_def spike_entry_def blank_def)
qed

lemma interp_step_skip: "getc c (fst st ! i) \<noteq> None \<Longrightarrow> interp_step c st i = st"
  by (auto simp add: interp_step_def)

lemma interp_step_null_col:
  assumes "\<forall>r\<in>set (fst st). getc c r = None"
  shows "interp_step c st i = st"
proof -
  have "find_next (fst st) c i = None"
    unfolding find_next_def find_None_iff using assms by auto
  then show ?thesis by (simp add: interp_step_def split: option.split)
qed

lemma foldl_fixed: "(\<And>x. x \<in> set xs \<Longrightarrow> f s x = s) \<Longrightarrow> foldl f s xs = s"
  by (induction xs) simp_all

lemma interp_col_null_col:
  "\<forall>r\<in>set (fst st). getc c r = None \<Longrightarrow> interp_col st c = st"
  unfolding interp_col_def by (rule foldl_fixed) (rule interp_step_null_col)

lemma detect_gap_in: "detect_phase gap_in = (gap_in, [], 0)"
  by (simp add: detect_phase_def detect_stage_def STAGE_ROWS_def gap_in_def)

lemma interp_gap_in:
  "interp_phase (gap_in, [], 0) = (gap_in[1 := setc Col_VO2 (Some (5 / 2)) (gap_in ! 1)], [], 0, 0)"
proof -
  have s0: "interp_step Col_VO2 (gap_in, [], 0, 0) 0 = (gap_in, [], 0, 0)"
    by (rule interp_step_skip) (simp add: gap_in_def)
  have "interp_step Col_VO2 (gap_in, [], 0, 0) 1 =
      fill_cell Col_VO2 1 (2 + (3 - 2) * (real (1 - 0) / real (2 - 0))) (gap_in, [], 0, 0)"
    by (rule interp_step_unfold) (auto simp add: gap_in_def blank_def STAGE_ROWS_def)
  then have s1: "interp_step Col_VO2 (gap_in, [], 0, 0) 1 =
      (gap_in[1 := setc Col_VO2 (Some (5 / 2)) (gap_in ! 1)], [], 0, 0)"
    by (simp add: fill_cell_def)
  have s2: "interp_step Col_VO2 (gap_in[1 := setc Col_VO2 (Some (5 / 2)) (gap_in ! 1)], [], 0, 0) 2 =
      (gap_in[1 := setc Col_VO2 (Some (5 / 2)) (gap_in ! 1)], [], 0, 0)"
    by (rule interp_step_skip) (simp add: gap_in_def)
  have "[0 ..< length (fst (gap_in, ([]::auditMap), 0::int, 0::int))] = [0, 1, 2]"
    by (simp add: gap_in_def)
  then have vo2: "interp_col (gap_in, [], 0, 0) Col_VO2 =
      (gap_in[1 := setc Col_VO2 (Some (5 / 2)) (gap_in ! 1)], [], 0, 0)"
    by (simp only: interp_col_def foldl_Cons foldl_Nil s0 s1 s2)
  let ?X = "(gap_in[1 := setc Col_VO2 (Some (5 / 2)) (gap_in ! 1)], []::auditMap, 0::int, 0::int)"
  have rest: "interp_col ?X c = ?X" if "c \<noteq> Col_VO2" for c
    using that by (intro interp_col_null_col) (cases c; simp add: gap_in_def blank_def)
  have r: "interp_col ?X Col_VCO2 = ?X" "interp_col ?X Col_VE = ?X" "interp_col ?X Col_HR = ?X"
    "interp_col ?X Col_VT = ?X" "interp_col ?X Col_BF = ?X"
    by (rule rest, simp)+
  show ?thesis
    by (simp only: interp_phase_def OUTLIER_COLS_def prod.case foldl_Cons foldl_Nil vo2 r)
qed

text \<open>
  VO2 2, \<open>null\<close>, 3 in a series of three rows, the \<open>null\<close> missing from the file: the cell is
  filled with 2.5 and the audit log stays empty (here with a comparison of labels that takes
  all of them for equal; the log is empty whatever the comparison).
\<close>

theorem interp_no_new_entry_counterexample:
  "VO2 (gap_in ! 1) = None \<and>
   VO2 (cleanedData (cleanAndInterpolateData (\<lambda>a b. 0) gap_in 70) ! 1) = Some (5 / 2) \<and>
   auditLog (cleanAndInterpolateData (\<lambda>a b. 0) gap_in 70) = []"
  by (simp add: cleanAndInterpolateData_def detect_gap_in interp_gap_in sort_log_def)
    (simp add: gap_in_def blank_def recalculateDerivedMetrics_def)

section \<open>AUC integrator\<close>

lemma auc_step_trapezoid: "auc_step data acc i = acc + trapezoid data i"
  by (simp add: auc_step_def trapezoid_def split: option.split)

lemma foldl_auc_step: "foldl (auc_step data) acc [s ..< e] = acc + (\<Sum>i = s ..< e. trapezoid data i)"
proof (induction e arbitrary: acc)
  case 0 show ?case by simp
next
  case (Suc e)
  show ?case
  proof (cases "s \<le> e")
    case True
    then show ?thesis using Suc by (simp add: auc_step_trapezoid)
  next
    case False then show ?thesis by simp
  qed
qed

text \<open>
  Claim C8, amended.  With \<open>s\<close> the first index whose VO2 is at least the start threshold and
  \<open>e\<close> the last index whose VO2 is at most the end threshold, and \<open>s < e\<close>, \<open>calculateAuc\<close>
  returns the sum of the trapezoids of the adjacent pairs from \<open>s\<close> to \<open>e\<close> whose two VO2
  values are numbers, the times of the rows \<open>s\<close> and \<open>e\<close>, and as VO2 bounds the two
  requested thresholds \<open>vo2max * startPercent / 100\<close> and \<open>vo2max * endPercent / 100\<close>.  It
  returns \<open>null\<close> exactly when there is no such first index, or no such last index, or the
  last is not after the first.
\<close>

theorem calculateAuc_result:
  "(\<forall>s e. first_index (reaches (vmax * (startPercent / 100))) data s \<and>
          last_index (at_most (vmax * (endPercent / 100))) data e \<and> s < e \<longrightarrow>
      calculateAuc data vmax startPercent endPercent =
        Some \<lparr>auc_value = (\<Sum>i = s ..< e. trapezoid data i),
              startTime = timeInSeconds (data ! s), endTime = timeInSeconds (data ! e),
              startVo2 = vmax * (startPercent / 100), endVo2 = vmax * (endPercent / 100)\<rparr>) \<and>
   ((calculateAuc data vmax startPercent endPercent = None) \<longleftrightarrow>
      (\<not> (\<exists>s. first_index (reaches (vmax * (startPercent / 100))) data s) \<or>
       \<not> (\<exists>e. last_index (at_most (vmax * (endPercent / 100))) data e) \<or>
       (\<exists>s e. first_index (reaches (vmax * (startPercent / 100))) data s \<and>
              last_index (at_most (vmax * (endPercent / 100))) data e \<and> e \<le> s)))"
proof -
  let ?F = "first_index (reaches (vmax * (startPercent / 100))) data"
  let ?L = "last_index (at_most (vmax * (endPercent / 100))) data"
  let ?fi = "findIndex (reaches (vmax * (startPercent / 100))) data"
  let ?sb = "scan_back (at_most (vmax * (endPercent / 100))) data (length data)"
  have some: "calculateAuc data vmax startPercent endPercent =
        Some \<lparr>auc_value = (\<Sum>i = s ..< e. trapezoid data i),
              startTime = timeInSeconds (data ! s), endTime = timeInSeconds (data ! e),
              startVo2 = vmax * (startPercent / 100), endVo2 = vmax * (endPercent / 100)\<rparr>"
    if "?F s" "?L e" "s < e" for s e
  proof -
    from that have "?fi = Some s" "?sb = Some e"
      by (simp_all add: findIndex_Some scan_back_last)
    with \<open>s < e\<close> show ?thesis
      by (simp add: calculateAuc_def Let_def foldl_auc_step)
  qed
  have none: "(calculateAuc data vmax startPercent endPercent = None) \<longleftrightarrow>
      (\<not> (\<exists>s. ?F s) \<or> \<not> (\<exists>e. ?L e) \<or> (\<exists>s e. ?F s \<and> ?L e \<and> e \<le> s))"
  proof (cases ?fi)
    case None
    then have "\<not> (\<exists>s. ?F s)" by (metis findIndex_Some option.distinct(1))
    with None show ?thesis by (simp add: calculateAuc_def Let_def)
  next
    case (Some s)
    note s = this
    then have Fs: "?F s" by (simp add: findIndex_Some)
    show ?thesis
    proof (cases ?sb)
      case None
      then have "\<not> (\<exists>e. ?L e)" by (metis scan_back_last option.distinct(1))
      with None s show ?thesis by (simp add: calculateAuc_def Let_def)
    next
      case (Some e)
      then have Le: "?L e" by (simp add: scan_back_last)
      have "(\<exists>s' e'. ?F s' \<and> ?L e' \<and> e' \<le> s') \<longleftrightarrow> e \<le> s"
        using Fs Le first_index_unique last_index_unique by blast
      with s Some Fs Le show ?thesis
        by (auto simp add: calculateAuc_def Let_def)
    qed
  qed
  from some none show ?thesis by blast
qed

text \<open>VO2 1, 2.5, 2.6, 3.5 at 0, 10, 20, 30 seconds, from 50 to 70 percent of 4.\<close>

theorem calculateAuc_result_witness:
  "calculateAuc auc_in 4 50 70 =
     Some \<lparr>auc_value = (\<Sum>i = 1 ..< 2. trapezoid auc_in i), startTime = timeInSeconds (auc_in ! 1),
           endTime = timeInSeconds (auc_in ! 2), startVo2 = 4 * (50 / 100), endVo2 = 4 * (70 / 100)\<rparr>"
proof -
  have "first_index (reaches (4 * (50 / 100))) auc_in 1"
    by (simp add: first_index_def reaches_def auc_in_def blank_def)
  moreover have "last_index (at_most (4 * (70 / 100))) auc_in 2"
    by (auto simp add: last_index_def at_most_def auc_in_def blank_def less_Suc_eq nth_Cons')
  ultimately show ?thesis
    using calculateAuc_result [of 4 50 auc_in 70] by simp
qed

text \<open>
  On that series the bracket is the rows 1 and 2, with VO2 2.5 and 2.6; the VO2 bounds
  returned are 2 and 2.8, the thresholds asked for.
\<close>

theorem calculateAuc_bounds_counterexample:
  "calculateAuc auc_in 4 50 70 =
     Some \<lparr>auc_value = 17 / 40, startTime = 10, endTime = 20, startVo2 = 2, endVo2 = 14 / 5\<rparr> \<and>
   VO2 (auc_in ! 1) = Some (5 / 2) \<and> VO2 (auc_in ! 2) = Some (13 / 5)"
  by (simp add: calculateAuc_def auc_in_def blank_def reaches_def at_most_def auc_step_def
      eval_nat_numeral)

section \<open>Percentile extractor\<close>

lemma percent_fold:
  "distinct ps \<Longrightarrow> set ps \<inter> set seen = {} \<Longrightarrow>
   fst (foldl (percent_step data vmax) (res, seen) ps) =
     res @ List.map_filter
       (\<lambda>i. map_option (\<lambda>f. (data ! f)\<lparr>VO2_pct_max := Some i\<rparr>)
          (findIndex (reaches (vmax * (real i / 100))) data)) ps"
proof (induction ps arbitrary: res seen)
  case Nil show ?case by (simp add: List.map_filter_simps)
next
  case (Cons p ps)
  show ?case
  proof (cases "findIndex (reaches (vmax * (real p / 100))) data")
    case None
    with Cons show ?thesis by (simp add: percent_step_def List.map_filter_simps)
  next
    case (Some f)
    from Cons.prems have "p \<notin> set seen" "distinct ps" "set ps \<inter> set (seen @ [p]) = {}"
      by auto
    with Some Cons.IH [of "seen @ [p]"] show ?thesis
      by (simp add: percent_step_def List.map_filter_simps)
  qed
qed

lemma extract_closed_form:
  "extractPercentageDataForMetrics data metrics =
     List.map_filter
       (\<lambda>i. map_option (\<lambda>f. (data ! f)\<lparr>VO2_pct_max := Some i\<rparr>)
          (findIndex (reaches (vo2max metrics * (real i / 100))) data)) percent_loop"
proof (cases "data = []")
  case True
  then show ?thesis
    by (simp add: extractPercentageDataForMetrics_def percent_loop_def List.map_filter_simps)
next
  case False
  have "distinct percent_loop" by (simp add: percent_loop_def)
  then show ?thesis using False
    by (simp add: extractPercentageDataForMetrics_def percent_fold)
qed

lemma set_map_filter: "y \<in> set (List.map_filter g xs) \<longleftrightarrow> (\<exists>x\<in>set xs. g x = Some y)"
  by (induction xs) (auto simp: List.map_filter_simps split: option.splits)

lemma sorted_wrt_map_filter:
  assumes "sorted_wrt R xs"
    and "\<And>x y a b. R x y \<Longrightarrow> g x = Some a \<Longrightarrow> g y = Some b \<Longrightarrow> Q a b"
  shows "sorted_wrt Q (List.map_filter g xs)"
  using assms(1)
proof (induction xs)
  case Nil show ?case by (simp add: List.map_filter_simps)
next
  case (Cons x xs)
  then have IH: "sorted_wrt Q (List.map_filter g xs)" by simp
  show ?case
  proof (cases "g x")
    case None with IH show ?thesis by (simp add: List.map_filter_simps)
  next
    case (Some a)
    have "Q a b" if "b \<in> set (List.map_filter g xs)" for b
    proof -
      from that obtain y where "y \<in> set xs" "g y = Some b"
        by (auto simp: List.map_filter_def)
      with Cons.prems Some show ?thesis by (auto intro: assms(2))
    qed
    with Some IH show ?thesis by (simp add: List.map_filter_simps)
  qed
qed

lemma first_index_mono:
  assumes "first_index P xs a" "first_index Q xs b" "\<And>x. Q x \<Longrightarrow> P x"
  shows "a \<le> b"
  using assms unfolding first_index_def by (meson not_le_imp_less)


text \<open>
  Claim C9, amended.  The labels of the rows emitted are, in this order, the percentages
  10, 20, ..., 100 for which some row's VO2 reaches \<open>vo2max * i / 100\<close>: strictly increasing,
  one row for each, the others skipped.  Each emitted row is the first row of the series that
  reaches the threshold of its label, with the label added.  When \<open>vo2max\<close> is not negative
  and the series is sorted by \<open>timeInSeconds\<close>, the emitted rows are sorted by
  \<open>timeInSeconds\<close> too, not strictly: one row can be emitted for several percentages.
\<close>

theorem percentile_rows:
  "map VO2_pct_max (extractPercentageDataForMetrics data metrics) =
     map Some (filter (\<lambda>i. \<exists>r\<in>set data. reaches (vo2max metrics * (real i / 100)) r) percent_loop) \<and>
   sorted_wrt (\<lambda>a b. \<exists>i j. VO2_pct_max a = Some i \<and> VO2_pct_max b = Some j \<and> i < j)
     (extractPercentageDataForMetrics data metrics) \<and>
   (\<forall>row\<in>set (extractPercentageDataForMetrics data metrics).
      \<exists>i f. first_index (reaches (vo2max metrics * (real i / 100))) data f \<and>
            row = (data ! f)\<lparr>VO2_pct_max := Some i\<rparr>) \<and>
   (0 \<le> vo2max metrics \<and> sorted (map timeInSeconds data) \<longrightarrow>
      sorted (map timeInSeconds (extractPercentageDataForMetrics data metrics)))"
proof -
  let ?thr = "\<lambda>i::nat. vo2max metrics * (real i / 100)"
  let ?g = "\<lambda>i. map_option (\<lambda>f. (data ! f)\<lparr>VO2_pct_max := Some i\<rparr>) (findIndex (reaches (?thr i)) data)"
  let ?res = "extractPercentageDataForMetrics data metrics"
  have cf: "?res = List.map_filter ?g percent_loop"
    by (rule extract_closed_form)
  have up: "sorted_wrt (<) percent_loop"
    by (simp add: percent_loop_def)
  have labels: "map VO2_pct_max (List.map_filter ?g ps) =
      map Some (filter (\<lambda>i. \<exists>r\<in>set data. reaches (?thr i) r) ps)" for ps
  proof (induction ps)
    case Nil show ?case by (simp add: List.map_filter_simps)
  next
    case (Cons p ps)
    show ?case
    proof (cases "findIndex (reaches (?thr p)) data")
      case None
      then have "\<not> (\<exists>r\<in>set data. reaches (?thr p) r)" by (simp add: findIndex_None)
      with None Cons show ?thesis by (simp add: List.map_filter_simps)
    next
      case (Some f)
      then have "\<exists>r\<in>set data. reaches (?thr p) r"
        by (metis findIndex_None option.distinct(1))
      with Some Cons show ?thesis by (simp add: List.map_filter_simps)
    qed
  qed
  have c1: "map VO2_pct_max ?res =
      map Some (filter (\<lambda>i. \<exists>r\<in>set data. reaches (?thr i) r) percent_loop)"
    unfolding cf by (rule labels)
  have c2: "sorted_wrt (\<lambda>a b. \<exists>i j. VO2_pct_max a = Some i \<and> VO2_pct_max b = Some j \<and> i < j) ?res"
    unfolding cf by (rule sorted_wrt_map_filter [OF up]) auto
  have c3: "\<forall>row\<in>set ?res. \<exists>i f. first_index (reaches (?thr i)) data f \<and>
      row = (data ! f)\<lparr>VO2_pct_max := Some i\<rparr>"
  proof
    fix row assume "row \<in> set ?res"
    then obtain i where "?g i = Some row"
      unfolding cf set_map_filter by blast
    then obtain f where "findIndex (reaches (?thr i)) data = Some f"
        "row = (data ! f)\<lparr>VO2_pct_max := Some i\<rparr>"
      by auto
    then show "\<exists>i f. first_index (reaches (?thr i)) data f \<and>
        row = (data ! f)\<lparr>VO2_pct_max := Some i\<rparr>"
      by (auto simp: findIndex_Some)
  qed
  have c4: "sorted (map timeInSeconds ?res)"
    if nn: "0 \<le> vo2max metrics" and st: "sorted (map timeInSeconds data)"
  proof -
    have step: "timeInSeconds a \<le> timeInSeconds b"
      if "i < j" "?g i = Some a" "?g j = Some b" for i j a b
    proof -
      from that obtain f f' where f: "first_index (reaches (?thr i)) data f"
          "a = (data ! f)\<lparr>VO2_pct_max := Some i\<rparr>"
        and f': "first_index (reaches (?thr j)) data f'" "b = (data ! f')\<lparr>VO2_pct_max := Some j\<rparr>"
        by (auto simp: findIndex_Some)
      have "?thr i \<le> ?thr j"
        using \<open>i < j\<close> nn by (simp add: mult_left_mono divide_right_mono)
      then have "reaches (?thr j) r \<Longrightarrow> reaches (?thr i) r" for r
        by (auto simp: reaches_def split: option.splits)
      with f(1) f'(1) have "f \<le> f'" by (rule first_index_mono)
      moreover have "f' < length data" using f'(1) by (simp add: first_index_def)
      ultimately have "map timeInSeconds data ! f \<le> map timeInSeconds data ! f'"
        using st by (intro sorted_nth_mono) simp_all
      then show ?thesis using f(2) f'(2) \<open>f \<le> f'\<close> \<open>f' < length data\<close> by simp
    qed
    have "sorted_wrt (\<lambda>a b. timeInSeconds a \<le> timeInSeconds b) (List.map_filter ?g percent_loop)"
      by (rule sorted_wrt_map_filter [OF up]) (rule step)
    then show ?thesis unfolding cf by (simp add: sorted_wrt_map sorted_map)
  qed
  from c1 c2 c3 c4 show ?thesis by blast
qed

lemma vo2max_pct_in: "vo2max (calculateKeyMetricsForData pct_in) = 2"
  by (simp add: calculateKeyMetricsForData_def Let_def pct_in_def blank_def max_or_0_def
      valid_values_def List.map_filter_simps)

text \<open>VO2 1 and 2 at 0 and 10 seconds, with the metrics of that series.\<close>

theorem percentile_rows_witness:
  "0 \<le> vo2max (calculateKeyMetricsForData pct_in) \<and> sorted (map timeInSeconds pct_in) \<and>
   sorted (map timeInSeconds
     (extractPercentageDataForMetrics pct_in (calculateKeyMetricsForData pct_in)))"
proof -
  have h: "0 \<le> vo2max (calculateKeyMetricsForData pct_in)" "sorted (map timeInSeconds pct_in)"
    by (simp_all add: vo2max_pct_in) (simp add: pct_in_def blank_def)
  with percentile_rows [of pct_in "calculateKeyMetricsForData pct_in"] show ?thesis
    by blast
qed

text \<open>
  On that series the row at 0 seconds is the first to reach 10 percent and 20 percent of the
  maximum: the first two emitted rows have the same \<open>timeInSeconds\<close>.
\<close>

theorem percentile_time_counterexample:
  "VO2_pct_max (extractPercentageDataForMetrics pct_in (calculateKeyMetricsForData pct_in) ! 0) = Some 10 \<and>
   VO2_pct_max (extractPercentageDataForMetrics pct_in (calculateKeyMetricsForData pct_in) ! 1) = Some 20 \<and>
   timeInSeconds (extractPercentageDataForMetrics pct_in (calculateKeyMetricsForData pct_in) ! 0) = 0 \<and>
   timeInSeconds (extractPercentageDataForMetrics pct_in (calculateKeyMetricsForData pct_in) ! 1) = 0"
  by (simp add: extract_closed_form vo2max_pct_in percent_loop_def List.map_filter_simps)
    (simp add: pct_in_def blank_def reaches_def)

section \<open>Key metrics: stages, summaries, plateau\<close>

lemma stage_start_less:
  assumes "i < nat \<lceil>T / 180\<rceil>"
  shows "real i * 180 < (T::real)"
proof -
  from assms have "int i < \<lceil>T / 180\<rceil>" by linarith
  then have "real i < T / 180" by (simp add: less_ceiling_iff)
  then show ?thesis by (simp add: pos_less_divide_eq)
qed

lemma stages_of_map:
  "stages_of T = map (\<lambda>i. (real i * 180, min (real (i + 1) * 180) T)) [0 ..< nat \<lceil>T / 180\<rceil>]"
proof -
  have key: "real i * 180 < min (real (i + 1) * 180) T" if "i < nat \<lceil>T / 180\<rceil>" for i
  proof -
    from that have "real i * 180 < T" by (rule stage_start_less)
    then show ?thesis by (simp add: algebra_simps)
  qed
  have "\<forall>x\<in>set (map (\<lambda>i. (real i * 180, min (real (i + 1) * 180) T)) [0 ..< nat \<lceil>T / 180\<rceil>]).
          (\<lambda>(startTime, endTime). endTime > startTime) x"
    using key by auto
  then have "filter (\<lambda>(startTime, endTime). endTime > startTime)
          (map (\<lambda>i. (real i * 180, min (real (i + 1) * 180) T)) [0 ..< nat \<lceil>T / 180\<rceil>]) =
        map (\<lambda>i. (real i * 180, min (real (i + 1) * 180) T)) [0 ..< nat \<lceil>T / 180\<rceil>]"
    by (simp only: filter_True)
  then show ?thesis by (simp add: stages_of_def STAGE_DURATION_SECONDS_def Let_def)
qed

lemma length_stages_of: "length (stages_of T) = nat \<lceil>T / 180\<rceil>"
  by (simp add: stages_of_map)

lemma stages_of_nth:
  "k < length (stages_of T) \<Longrightarrow>
   stages_of T ! k = (real k * 180, min (real (k + 1) * 180) T)"
  by (simp add: stages_of_map)

lemma stages_of_end_le: "k < length (stages_of T) \<Longrightarrow> snd (stages_of T ! k) \<le> T"
  by (simp add: stages_of_nth)

lemma stages_of_nonempty: "0 < T \<Longrightarrow> stages_of T \<noteq> []"
proof -
  assume "0 < T"
  then have "0 < \<lceil>T / 180\<rceil>" by (simp add: ceiling_less_iff not_le [symmetric] ceiling_le_iff)
  then have "0 < length (stages_of T)" by (simp add: length_stages_of)
  then show ?thesis by simp
qed

lemma stages_of_last_end:
  assumes "0 < T"
  shows "snd (last (stages_of T)) = T"
proof -
  let ?N = "nat \<lceil>T / 180\<rceil>"
  have ne: "stages_of T \<noteq> []" using assms by (rule stages_of_nonempty)
  then have N: "0 < ?N" by (simp add: length_stages_of [symmetric])
  have "T / 180 \<le> real_of_int \<lceil>T / 180\<rceil>" by (rule le_of_int_ceiling)
  also have "\<dots> = real ?N" using N by simp
  finally have "T \<le> real ?N * 180" by (simp add: pos_divide_le_eq)
  moreover have "real (?N - 1 + 1) = real ?N" using N by simp
  ultimately have "min (real (?N - 1 + 1) * 180) T = T" by simp
  moreover have "last (stages_of T) = stages_of T ! (?N - 1)"
    using ne by (simp add: last_conv_nth length_stages_of)
  ultimately show ?thesis using N by (simp add: stages_of_nth length_stages_of)
qed

lemma stages_of_last_start:
  assumes "0 < T"
  shows "fst (last (stages_of T)) < T"
proof -
  let ?N = "nat \<lceil>T / 180\<rceil>"
  have ne: "stages_of T \<noteq> []" using assms by (rule stages_of_nonempty)
  then have N: "0 < ?N" by (simp add: length_stages_of [symmetric])
  have "last (stages_of T) = stages_of T ! (?N - 1)"
    using ne by (simp add: last_conv_nth length_stages_of)
  moreover have "real (?N - 1) * 180 < T" using N by (intro stage_start_less) simp
  ultimately show ?thesis using N by (simp add: stages_of_nth length_stages_of)
qed

lemma window_rows_before_end:
  "r \<in> set (window_rows data stages k) \<Longrightarrow> timeInSeconds r < snd (stages ! k)"
  by (auto simp: window_rows_def stageData_of_def Let_def split: if_splits)


lemma filter_snoc_out: "\<not> P y \<Longrightarrow> \<not> P z \<Longrightarrow> filter P (xs @ [y]) = filter P (xs @ [z])"
  by simp

lemma summarize_cong:
  assumes "\<And>k. k \<in> set idxs \<Longrightarrow> stage_avgVo2 d' stages k = stage_avgVo2 d stages k"
    and "\<And>k. k \<in> set idxs \<Longrightarrow> stage_isPartial d' stages k = stage_isPartial d stages k"
  shows "summarize d' stages prev idxs = summarize d stages prev idxs"
  using assms by (induction idxs arbitrary: prev) (simp_all add: Let_def)

lemma length_summarize: "length (summarize d stages prev idxs) = length idxs"
  by (induction idxs arbitrary: prev) (simp_all add: Let_def)

lemma summarize_avg:
  "k < length idxs \<Longrightarrow> avgVo2 (summarize d stages prev idxs ! k) = stage_avgVo2 d stages (idxs ! k)"
proof (induction idxs arbitrary: prev k)
  case Nil then show ?case by simp
next
  case (Cons i idxs)
  then show ?case by (cases k) (simp_all add: Let_def)
qed

lemma summarize_delta:
  "k < length idxs \<Longrightarrow>
   deltaVo2 (summarize d stages prev idxs ! k) =
     (let before = (if k = 0 then prev else stage_avgVo2 d stages (idxs ! (k - 1)));
          avg = stage_avgVo2 d stages (idxs ! k)
      in if idxs ! k > 0 \<and> avg > 0 \<and> before > 0 then Some (avg - before) else None)"
proof (induction idxs arbitrary: prev k)
  case Nil then show ?case by simp
next
  case (Cons i idxs)
  show ?case
  proof (cases k)
    case 0 then show ?thesis by (simp add: Let_def)
  next
    case (Suc k')
    with Cons.prems have "k' < length idxs" by simp
    from Cons.IH [OF this, of "stage_avgVo2 d stages i"] Suc show ?thesis
      by (cases k') (simp_all add: Let_def)
  qed
qed

text \<open>
  Claim C10.  For a non-empty series whose last row has a positive \<open>timeInSeconds\<close>, there is
  a stage, the last stage ends at the \<open>timeInSeconds\<close> of the last row, every row averaged
  for a stage lies strictly before that time, so the last row is averaged for no stage, and
  the stage summaries do not change when the VO2 of the last row is replaced by any value.
\<close>

theorem final_row_excluded:
  assumes "data \<noteq> []" and "0 < timeInSeconds (last data)"
  shows "stages_of (timeInSeconds (last data)) \<noteq> [] \<and>
     snd (last (stages_of (timeInSeconds (last data)))) = timeInSeconds (last data) \<and>
     (\<forall>k<length (stages_of (timeInSeconds (last data))).
        (\<forall>r\<in>set (window_rows data (stages_of (timeInSeconds (last data))) k).
           timeInSeconds r < timeInSeconds (last data)) \<and>
        last data \<notin> set (window_rows data (stages_of (timeInSeconds (last data))) k)) \<and>
     (\<forall>v. plateau_summaries (butlast data @ [(last data)\<lparr>VO2 := v\<rparr>]) = plateau_summaries data)"
proof -
  let ?T = "timeInSeconds (last data)"
  let ?S = "stages_of ?T"
  have ne: "?S \<noteq> []" using assms(2) by (rule stages_of_nonempty)
  have fin: "snd (last ?S) = ?T" using assms(2) by (rule stages_of_last_end)
  have before: "timeInSeconds r < ?T" if "k < length ?S" "r \<in> set (window_rows data ?S k)" for k r
  proof -
    have "timeInSeconds r < snd (?S ! k)" using that(2) by (rule window_rows_before_end)
    also have "\<dots> \<le> ?T" using that(1) by (rule stages_of_end_le)
    finally show ?thesis .
  qed
  have notin: "last data \<notin> set (window_rows data ?S k)" if "k < length ?S" for k
    using before [OF that, of "last data"] by auto
  have indep: "plateau_summaries (butlast data @ [(last data)\<lparr>VO2 := v\<rparr>]) = plateau_summaries data" for v
  proof -
    let ?d' = "butlast data @ [(last data)\<lparr>VO2 := v\<rparr>]"
    have split: "data = butlast data @ [last data]" using assms(1) by simp
    have T': "timeInSeconds (last ?d') = ?T" by simp
    have flt: "filter P ?d' = filter P data"
      if "\<not> P (last data)" "\<not> P ((last data)\<lparr>VO2 := v\<rparr>)" for P
    proof -
      have "filter P ?d' = filter P (butlast data @ [last data])"
        using that by (intro filter_snoc_out) simp_all
      then show ?thesis using split by simp
    qed
    have sd: "stageData_of ?d' (?S ! k) = stageData_of data (?S ! k)" if "k < length ?S" for k
      unfolding stageData_of_def using stages_of_end_le [OF that] by (intro flt) simp_all
    have tw: "filter (\<lambda>r. timeInSeconds r \<ge> snd (?S ! k) - 30 \<and> timeInSeconds r < snd (?S ! k)) ?d' =
        filter (\<lambda>r. timeInSeconds r \<ge> snd (?S ! k) - 30 \<and> timeInSeconds r < snd (?S ! k)) data"
      if "k < length ?S" for k
      using stages_of_end_le [OF that] by (intro flt) simp_all
    have wr: "window_rows ?d' ?S k = window_rows data ?S k" if "k < length ?S" for k
      using sd [OF that] tw [OF that] by (simp add: window_rows_def Let_def)
    have avg: "stage_avgVo2 ?d' ?S k = stage_avgVo2 data ?S k" if "k < length ?S" for k
      using sd [OF that] wr [OF that] by (simp add: stage_avgVo2_def)
    have part: "stage_isPartial ?d' ?S k = stage_isPartial data ?S k" if "k < length ?S" for k
      using sd [OF that] by (simp add: stage_isPartial_def)
    have "summarize ?d' ?S 0 [0 ..< length ?S] = summarize data ?S 0 [0 ..< length ?S]"
      by (rule summarize_cong) (simp_all add: avg part)
    then show ?thesis unfolding plateau_summaries_def Let_def T' .
  qed
  from ne fin before notin indep show ?thesis by blast
qed

text \<open>
  Five rows at 160, 170, 340, 350 and 360 seconds: the summaries are the same with VO2 100
  in the last row.
\<close>

theorem final_row_excluded_witness:
  "stages_of (timeInSeconds (last plat_in)) \<noteq> [] \<and>
   snd (last (stages_of (timeInSeconds (last plat_in)))) = 360 \<and>
   plateau_summaries (butlast plat_in @ [(last plat_in)\<lparr>VO2 := Some 100\<rparr>]) = plateau_summaries plat_in"
proof -
  have h: "plat_in \<noteq> []" "0 < timeInSeconds (last plat_in)"
    by (simp_all add: plat_in_def blank_def)
  have "timeInSeconds (last plat_in) = 360" by (simp add: plat_in_def blank_def)
  with final_row_excluded [OF h] show ?thesis by metis
qed


lemma stages_of_pos:
  assumes "stages_of T \<noteq> []"
  shows "0 < T"
proof (rule ccontr)
  assume "\<not> 0 < T"
  then have "T / 180 \<le> 0" by simp
  then have "\<lceil>T / 180\<rceil> \<le> 0" by (simp add: ceiling_le_iff)
  then have "length (stages_of T) = 0" by (simp add: length_stages_of)
  with assms show False by simp
qed

lemma find_first_index:
  "(List.find P xs = Some x) \<longleftrightarrow> (\<exists>k. first_index P xs k \<and> x = xs ! k)"
  by (auto simp: find_Some_iff first_index_def)

lemma plateau_label_first:
  assumes "data \<noteq> []" "start \<le> timeInSeconds (last data)"
  shows "\<exists>k. first_index (\<lambda>r. timeInSeconds r \<ge> start) data k \<and>
     plateau_label data start = (if t (data ! k) \<noteq> [] then t (data ! k) else t (last data))"
proof -
  have "last data \<in> set data" using assms(1) by simp
  with assms(2) have "List.find (\<lambda>d. timeInSeconds d \<ge> start) data \<noteq> None"
    by (auto simp: find_None_iff)
  then obtain d where d: "List.find (\<lambda>d. timeInSeconds d \<ge> start) data = Some d" by auto
  then obtain k where "first_index (\<lambda>r. timeInSeconds r \<ge> start) data k" "d = data ! k"
    by (auto simp: find_first_index)
  with d show ?thesis by (auto simp: plateau_label_def)
qed


subsection \<open>The plateau decision\<close>

lemma foldl_plus_sum: "foldl (+) a xs = a + sum_list (xs :: real list)"
  by (induction xs arbitrary: a) simp_all

lemma valid_values_the: "valid_values vs = [the v. v \<leftarrow> vs, v \<noteq> None]"
  by (induction vs) (auto simp: valid_values_def List.map_filter_simps)

lemma window_rows_terminal:
  "window_rows data stages k =
     terminal_rows data (fst (stages ! k)) (snd (stages ! k)) (k + 1 = length stages)"
proof -
  have last: "(int k = int (length stages) - 1) \<longleftrightarrow> (k + 1 = length stages)" by linarith
  have "filter (\<lambda>r. timeInSeconds r \<ge> e - 30) (filter (\<lambda>r. timeInSeconds r \<ge> s \<and> timeInSeconds r < e) data) =
      filter (\<lambda>r. e - 30 \<le> timeInSeconds r \<and> timeInSeconds r < e) data" if "e - s > 30" for s e :: real
    using that by (auto intro!: filter_cong)
  then show ?thesis
    unfolding window_rows_def terminal_rows_def Let_def stageData_of_def last
      STAGE_DURATION_SECONDS_def
    by (auto simp: not_less not_le)
qed

lemma stage_full_duration:
  assumes "k + 1 < length (stages_of T)"
  shows "stages_of T ! k = (real k * 180, real (k + 1) * 180)"
proof -
  from assms have "k + 1 < nat \<lceil>T / 180\<rceil>" by (simp add: length_stages_of)
  then have "real (k + 1) * 180 < T" by (rule stage_start_less)
  then have "min (real (k + 1) * 180) T = real (k + 1) * 180" by simp
  moreover have "k < length (stages_of T)" using assms by simp
  ultimately show ?thesis by (simp only: stages_of_nth)
qed

lemma terminal_rows_in_stage:
  assumes "k < length (stages_of T)"
    and "r \<in> set (terminal_rows data (fst (stages_of T ! k)) (snd (stages_of T ! k))
        (k + 1 = length (stages_of T)))"
  shows "r \<in> set (stageData_of data (stages_of T ! k))"
proof (cases "k + 1 = length (stages_of T)")
  case True
  with assms(2) show ?thesis
    by (auto simp: terminal_rows_def stageData_of_def split: if_splits)
next
  case False
  with assms(1) have "k + 1 < length (stages_of T)" by simp
  then have "stages_of T ! k = (real k * 180, real (k + 1) * 180)" by (rule stage_full_duration)
  with assms(2) False show ?thesis
    by (auto simp: terminal_rows_def stageData_of_def algebra_simps)
qed

lemma vo2_average_Nil: "vo2_average [] = 0"
  by (simp add: vo2_average_def)

lemma stage_avg_terminal:
  assumes "k < length (stages_of T)"
  shows "stage_avgVo2 data (stages_of T) k =
     vo2_average (terminal_rows data (real k * 180) (min (real (k + 1) * 180) T)
        (k + 1 = length (stages_of T)))"
proof -
  let ?W = "terminal_rows data (fst (stages_of T ! k)) (snd (stages_of T ! k))
      (k + 1 = length (stages_of T))"
  have W: "window_rows data (stages_of T) k = ?W" by (rule window_rows_terminal)
  have nth: "stages_of T ! k = (real k * 180, min (real (k + 1) * 180) T)"
    using assms by (rule stages_of_nth)
  have avg: "(let validVo2Values = valid_values (map VO2 ?W) in
         if length validVo2Values > 0
         then foldl (+) 0 validVo2Values / real (length validVo2Values) else 0) = vo2_average ?W"
    by (simp add: vo2_average_def Let_def valid_values_the foldl_plus_sum)
  have "stage_avgVo2 data (stages_of T) k = vo2_average ?W"
  proof (cases "stageData_of data (stages_of T ! k) = []")
    case True
    then have "?W = []" using terminal_rows_in_stage [OF assms, of _ data] by fastforce
    with True show ?thesis by (simp add: stage_avgVo2_def vo2_average_Nil)
  next
    case False
    then show ?thesis unfolding stage_avgVo2_def W using avg by simp
  qed
  then show ?thesis by (simp add: nth)
qed

text \<open>
  Claim C3.  \<open>plateauReached\<close> holds exactly when the series is not empty, there are at least
  2 stage summaries and the delta of the last one is a number below 0.15; \<open>isPeak\<close> is its
  negation.  The summaries returned are \<open>plateau_summaries\<close> (none for the empty series).  With
  \<open>T\<close> the time of the last row there are \<open>\<lceil>T / 180\<rceil>\<close> of them, and the average of summary
  \<open>k\<close> (counted from 0) is the mean of the numeric VO2 values of the rows of the terminal
  window of the stage from \<open>180 k\<close> to \<open>min (180 (k + 1)) T\<close> seconds: the rows with
  \<open>end - 30 \<le> time < end\<close>, or all rows of the stage when it is the final one and lasts at most
  30 seconds; the average is 0 when the window has no numeric VO2.  The delta of the last
  summary is the difference of the last two averages when both are positive and \<open>null\<close>
  otherwise.  On a plateau \<open>plateauComparison\<close> holds the last two averages and
  \<open>plateauTime\<close> is the label of the first row at or after the start of the last stage, or
  the label of the last row when that label is empty; without a plateau both are absent.
\<close>

theorem plateau_decision:
  "(plateauReached (calculateKeyMetricsForData data) \<longleftrightarrow>
      data \<noteq> [] \<and> 2 \<le> length (plateau_summaries data) \<and>
      (\<exists>d. deltaVo2 (last (plateau_summaries data)) = Some d \<and> d < 0.15)) \<and>
   isPeak (calculateKeyMetricsForData data) = (\<not> plateauReached (calculateKeyMetricsForData data)) \<and>
   plateauStageSummary (calculateKeyMetricsForData data) =
      (if data = [] then None else Some (plateau_summaries data)) \<and>
   length (plateau_summaries data) = nat \<lceil>timeInSeconds (last data) / 180\<rceil> \<and>
   (\<forall>k<length (plateau_summaries data).
      avgVo2 (plateau_summaries data ! k) =
        vo2_average (terminal_rows data (real k * 180)
          (min (real (k + 1) * 180) (timeInSeconds (last data)))
          (k + 1 = length (plateau_summaries data)))) \<and>
   (2 \<le> length (plateau_summaries data) \<longrightarrow>
      deltaVo2 (last (plateau_summaries data)) =
        (if avgVo2 (last (plateau_summaries data)) > 0 \<and>
            avgVo2 (plateau_summaries data ! (length (plateau_summaries data) - 2)) > 0
         then Some (avgVo2 (last (plateau_summaries data)) -
                    avgVo2 (plateau_summaries data ! (length (plateau_summaries data) - 2)))
         else None)) \<and>
   (plateauReached (calculateKeyMetricsForData data) \<longrightarrow>
      plateauComparison (calculateKeyMetricsForData data) =
        Some (avgVo2 (plateau_summaries data ! (length (plateau_summaries data) - 2)),
              avgVo2 (last (plateau_summaries data))) \<and>
      (\<exists>k. first_index
              (\<lambda>r. timeInSeconds r \<ge> real (length (plateau_summaries data) - 1) * 180) data k \<and>
           plateauTime (calculateKeyMetricsForData data) =
             Some (if t (data ! k) \<noteq> [] then t (data ! k) else t (last data)))) \<and>
   (\<not> plateauReached (calculateKeyMetricsForData data) \<longrightarrow>
      plateauComparison (calculateKeyMetricsForData data) = None \<and>
      plateauTime (calculateKeyMetricsForData data) = None)"
proof -
  let ?m = "calculateKeyMetricsForData data"
  let ?T = "timeInSeconds (last data)"
  let ?S = "stages_of ?T"
  let ?sm = "plateau_summaries data"
  let ?n = "length ?sm"
  have sm: "?sm = summarize data ?S 0 [0 ..< length ?S]"
    by (simp add: plateau_summaries_def Let_def)
  have len: "?n = length ?S" by (simp add: sm length_summarize)
  have count: "?n = nat \<lceil>?T / 180\<rceil>" by (simp only: len length_stages_of)
  have avg: "avgVo2 (?sm ! k) = stage_avgVo2 data ?S k" if "k < ?n" for k
    using that by (simp add: sm length_summarize summarize_avg)
  have win: "avgVo2 (?sm ! k) =
      vo2_average (terminal_rows data (real k * 180) (min (real (k + 1) * 180) ?T) (k + 1 = ?n))"
    if "k < ?n" for k
  proof -
    from that have "k < length ?S" by (simp only: len)
    then have "stage_avgVo2 data ?S k =
        vo2_average (terminal_rows data (real k * 180) (min (real (k + 1) * 180) ?T)
          (k + 1 = length ?S))"
      by (rule stage_avg_terminal)
    then show ?thesis by (simp only: avg [OF that] len)
  qed
  have reached: "plateauReached ?m \<longleftrightarrow>
      data \<noteq> [] \<and> 2 \<le> ?n \<and> (\<exists>d. deltaVo2 (last ?sm) = Some d \<and> d < 0.15)"
    by (auto simp: calculateKeyMetricsForData_def Let_def split: option.splits)
  have peak: "isPeak ?m = (\<not> plateauReached ?m)"
    by (simp add: calculateKeyMetricsForData_def Let_def)
  have summ: "plateauStageSummary ?m = (if data = [] then None else Some ?sm)"
    by (simp add: calculateKeyMetricsForData_def Let_def)
  have delta: "deltaVo2 (last ?sm) =
        (if avgVo2 (last ?sm) > 0 \<and> avgVo2 (?sm ! (?n - 2)) > 0
         then Some (avgVo2 (last ?sm) - avgVo2 (?sm ! (?n - 2))) else None)" if "2 \<le> ?n"
  proof -
    from that have ne: "?sm \<noteq> []" by auto
    then have l: "last ?sm = ?sm ! (?n - 1)" by (rule last_conv_nth)
    have k: "?n - 1 < length [0 ..< length ?S]" "?n - 2 < ?n" "?n - 1 < ?n"
      using that len by simp_all
    have "deltaVo2 (?sm ! (?n - 1)) =
        (if stage_avgVo2 data ?S (?n - 1) > 0 \<and> stage_avgVo2 data ?S (?n - 2) > 0
         then Some (stage_avgVo2 data ?S (?n - 1) - stage_avgVo2 data ?S (?n - 2)) else None)"
    proof -
      have a: "[0 ..< length ?S] ! (?n - 1) = ?n - 1" "[0 ..< length ?S] ! (?n - 1 - 1) = ?n - 2"
        using that len by simp_all
      have b: "?n - 1 \<noteq> 0" "0 < ?n - 1" using that by simp_all
      show ?thesis
        unfolding sm [symmetric] summarize_delta [OF k(1), of data ?S 0, folded sm]
        by (simp only: a b Let_def if_False if_True simp_thms)
    qed
    then show ?thesis using avg [OF k(2)] avg [OF k(3)] l by simp
  qed
  have on: "plateauComparison ?m = Some (avgVo2 (?sm ! (?n - 2)), avgVo2 (last ?sm)) \<and>
      (\<exists>k. first_index (\<lambda>r. timeInSeconds r \<ge> real (?n - 1) * 180) data k \<and>
           plateauTime ?m = Some (if t (data ! k) \<noteq> [] then t (data ! k) else t (last data)))"
    if r: "plateauReached ?m"
  proof -
    from r reached have d: "data \<noteq> []" and n: "2 \<le> ?n" by simp_all
    from n len have S: "?S \<noteq> []" by auto
    then have pos: "0 < ?T" by (rule stages_of_pos)
    have "last ?S = ?S ! (length ?S - 1)" using S by (rule last_conv_nth)
    moreover have "length ?S - 1 < length ?S" using S by simp
    ultimately have start: "fst (last ?S) = real (?n - 1) * 180"
      by (simp add: stages_of_nth len)
    have "fst (last ?S) \<le> ?T"
      using stages_of_last_start [OF pos] by simp
    from plateau_label_first [OF d this] obtain k where
      k: "first_index (\<lambda>r. timeInSeconds r \<ge> fst (last ?S)) data k"
        "plateau_label data (fst (last ?S)) =
           (if t (data ! k) \<noteq> [] then t (data ! k) else t (last data))"
      by blast
    have cmp: "plateauComparison ?m = Some (avgVo2 (?sm ! (?n - 2)), avgVo2 (last ?sm))"
      using r d by (simp add: calculateKeyMetricsForData_def Let_def split: if_splits)
    have "plateauTime ?m = Some (plateau_label data (fst (last ?S)))"
      using r d by (simp add: calculateKeyMetricsForData_def Let_def split: if_splits)
    with k cmp show ?thesis unfolding start by auto
  qed
  have off: "plateauComparison ?m = None \<and> plateauTime ?m = None" if "\<not> plateauReached ?m"
    using that by (simp add: calculateKeyMetricsForData_def Let_def split: if_splits)
  from reached peak summ count win delta on off show ?thesis by blast
qed

lemma vo2_average_valid:
  "vo2_average rows =
     (if valid_values (map VO2 rows) = [] then 0
      else sum_list (valid_values (map VO2 rows)) / real (length (valid_values (map VO2 rows))))"
  by (simp add: vo2_average_def Let_def valid_values_the)

lemma window_in_last: "timeInSeconds (last window_in) = 360"
  by (simp add: window_in_def blank_def)

lemma window_in_avg0:
  "vo2_average (terminal_rows window_in (real 0 * 180) (min (real (0 + 1) * 180) 360)
      (0 + 1 = (2::nat))) = 3"
  by (simp add: terminal_rows_def vo2_average_valid window_in_def blank_def valid_values_def
      List.map_filter_simps)

lemma window_in_avg1:
  "vo2_average (terminal_rows window_in (real 1 * 180) (min (real (1 + 1) * 180) 360)
      (1 + 1 = (2::nat))) = 31 / 10"
  by (simp add: terminal_rows_def vo2_average_valid window_in_def blank_def valid_values_def
      List.map_filter_simps)

lemma window_in_whole_stage:
  "vo2_average (filter (\<lambda>r. 0 \<le> timeInSeconds r \<and> timeInSeconds r < 180) window_in) = 2"
  by (simp add: vo2_average_valid window_in_def blank_def valid_values_def List.map_filter_simps)

text \<open>
  VO2 1, 3, 3.1, 5 at 10, 170, 350, 360 seconds.  The windows of the two stages hold the
  rows of 170 and of 350 seconds only, so the averages are 3 and 3.1 and there is a plateau,
  met at the row of 350 seconds.  The rows of 10 and of 360 seconds enter no average: with
  the row of 10 seconds the first average would be 2 and the delta 1.1.
\<close>

theorem plateau_decision_witness:
  "plateauReached (calculateKeyMetricsForData window_in) \<and>
   \<not> isPeak (calculateKeyMetricsForData window_in) \<and>
   length (plateau_summaries window_in) = 2 \<and>
   avgVo2 (plateau_summaries window_in ! 0) = 3 \<and>
   avgVo2 (plateau_summaries window_in ! 1) = 31 / 10 \<and>
   deltaVo2 (last (plateau_summaries window_in)) = Some (1 / 10) \<and>
   plateauComparison (calculateKeyMetricsForData window_in) = Some (3, 31 / 10) \<and>
   plateauTime (calculateKeyMetricsForData window_in) = Some ''0:05:50''"
proof -
  let ?sm = "plateau_summaries window_in"
  let ?m = "calculateKeyMetricsForData window_in"
  note th = plateau_decision [of window_in]
  have ne: "window_in \<noteq> []" by (simp add: window_in_def)
  have "nat \<lceil>(360::real) / 180\<rceil> = 2" by simp
  with th have n: "length ?sm = 2" by (simp only: window_in_last)
  from th have all: "\<forall>k<length ?sm. avgVo2 (?sm ! k) =
        vo2_average (terminal_rows window_in (real k * 180)
          (min (real (k + 1) * 180) (timeInSeconds (last window_in))) (k + 1 = length ?sm))"
    by blast
  have "(0::nat) < length ?sm" by (simp add: n)
  with all have "avgVo2 (?sm ! 0) =
        vo2_average (terminal_rows window_in (real 0 * 180)
          (min (real (0 + 1) * 180) (timeInSeconds (last window_in))) (0 + 1 = length ?sm))"
    by blast
  then have a0: "avgVo2 (?sm ! 0) = 3" by (simp only: n window_in_last window_in_avg0)
  have "(1::nat) < length ?sm" by (simp add: n)
  with all have "avgVo2 (?sm ! 1) =
        vo2_average (terminal_rows window_in (real 1 * 180)
          (min (real (1 + 1) * 180) (timeInSeconds (last window_in))) (1 + 1 = length ?sm))"
    by blast
  then have a1: "avgVo2 (?sm ! 1) = 31 / 10" by (simp only: n window_in_last window_in_avg1)
  have "?sm \<noteq> []" using n by auto
  then have "last ?sm = ?sm ! (length ?sm - 1)" by (rule last_conv_nth)
  then have l: "last ?sm = ?sm ! 1" by (simp add: n)
  have e: "length ?sm - 2 = 0" by (simp add: n)
  have two: "2 \<le> length ?sm" by (simp add: n)
  with th have "deltaVo2 (last ?sm) =
        (if avgVo2 (last ?sm) > 0 \<and> avgVo2 (?sm ! (length ?sm - 2)) > 0
         then Some (avgVo2 (last ?sm) - avgVo2 (?sm ! (length ?sm - 2))) else None)"
    by blast
  then have "deltaVo2 (last ?sm) =
        (if (31 / 10 :: real) > 0 \<and> (3::real) > 0 then Some (31 / 10 - 3) else None)"
    by (simp only: l e a0 a1)
  then have d: "deltaVo2 (last ?sm) = Some (1 / 10)" by simp
  have "(1 / 10 :: real) < 0.15" by simp
  with two d have "2 \<le> length ?sm \<and> (\<exists>d. deltaVo2 (last ?sm) = Some d \<and> d < 0.15)"
    by blast
  with th ne have r: "plateauReached ?m" by blast
  with th have p: "\<not> isPeak ?m" by blast
  from th r have "plateauComparison ?m =
        Some (avgVo2 (?sm ! (length ?sm - 2)), avgVo2 (last ?sm))"
    by blast
  then have c: "plateauComparison ?m = Some (3, 31 / 10)"
    by (simp only: l e a0 a1)
  from th r obtain k where
    k: "first_index (\<lambda>r. timeInSeconds r \<ge> real (length ?sm - 1) * 180) window_in k"
       "plateauTime ?m =
          Some (if t (window_in ! k) \<noteq> [] then t (window_in ! k) else t (last window_in))"
    by blast
  have "first_index (\<lambda>r. timeInSeconds r \<ge> real (length ?sm - 1) * 180) window_in 2"
    unfolding n
    by (simp add: first_index_def window_in_def blank_def less_Suc_eq eval_nat_numeral)
  with k(1) have "k = 2" by (rule first_index_unique)
  with k(2) have "plateauTime ?m = Some ''0:05:50''"
    by (simp add: window_in_def blank_def)
  with r p n a0 a1 d c show ?thesis by blast
qed

section \<open>Outlier detector: every change is a rejection\<close>

lemma t_setc [simp]: "t (setc c v r) = t r"
  by (cases c) simp_all

lemma rejects_on_mono: "rejects_on A st st' \<Longrightarrow> A \<subseteq> B \<Longrightarrow> rejects_on B st st'"
  by (induction rule: rejects_on.induct) (auto intro: rejects_on.intros)

lemma rejects_on_trans:
  "rejects_on A st1 st2 \<Longrightarrow> rejects_on A st0 st1 \<Longrightarrow> rejects_on A st0 st2"
  by (induction rule: rejects_on.induct) (auto intro: rejects_on.intros)

lemma rejects_on_length:
  "rejects_on A st st' \<Longrightarrow> length (fst st') = length (fst st)"
  by (induction rule: rejects_on.induct) (simp_all add: reject_def)

lemma rejects_on_labels:
  "rejects_on A st st' \<Longrightarrow> map t (fst st') = map t (fst st)"
proof (induction rule: rejects_on.induct)
  case rejects_none show ?case by simp
next
  case (rejects_more rows m n j c v rsn)
  have "map t (rows[j := setc c None (rows ! j)]) = map t rows"
    using rejects_more.hyps(3) by (simp add: map_update list_update_same_conv)
  with rejects_more.IH show ?case by (simp add: reject_def)
qed

lemma rejects_on_cell:
  "rejects_on A st st' \<Longrightarrow> k < length (fst st) \<Longrightarrow>
   getc c (fst st' ! k) = getc c (fst st ! k) \<or>
   ((k, c) \<in> A \<and> getc c (fst st ! k) \<noteq> None \<and> getc c (fst st' ! k) = None)"
proof (induction rule: rejects_on.induct)
  case rejects_none show ?case by simp
next
  case (rejects_more rows m n j c' v rsn)
  have len: "length rows = length (fst st)"
    using rejects_on_length [OF rejects_more.hyps(1)] by simp
  show ?case
  proof (cases "k = j \<and> c = c'")
    case True
    with rejects_more len show ?thesis by (auto simp: reject_def getc_setc)
  next
    case False
    then have "getc c (fst (reject j c' v rsn (rows, m, n)) ! k) = getc c (rows ! k)"
      using rejects_more.prems rejects_more.hyps(3) len
      by (auto simp: reject_def getc_setc nth_list_update)
    with rejects_more show ?thesis by auto
  qed
qed

lemma rejects_on_frame:
  "rejects_on A st st' \<Longrightarrow> k < length (fst st) \<Longrightarrow> (k, c) \<notin> A \<Longrightarrow>
   getc c (fst st' ! k) = getc c (fst st ! k)"
  using rejects_on_cell by blast

lemma rejects_on_None:
  "rejects_on A st st' \<Longrightarrow> k < length (fst st) \<Longrightarrow> getc c (fst st ! k) = None \<Longrightarrow>
   getc c (fst st' ! k) = None"
  using rejects_on_cell [of A st st' k c] by auto

lemma snd_set_update: "snd ` set (AList.update k e m) \<subseteq> insert e (snd ` set m)"
  by (induction m) auto

lemma ball_snd_update:
  "P e \<Longrightarrow> \<forall>x\<in>snd ` set m. P x \<Longrightarrow> \<forall>x\<in>snd ` set (AList.update k e m). P x"
  using snd_set_update [of k e m] by blast

lemma snd_reject:
  "fst (snd (reject j c v rsn (rows, m, n))) =
     AList.update (t (rows ! j), c)
       \<lparr>time = t (rows ! j), column = c, originalValue = v, reason = rsn,
        action = REMOVED, newValue = None\<rparr> m"
  by (simp add: reject_def)

lemma rejects_on_removed:
  "rejects_on A st st' \<Longrightarrow> \<forall>e\<in>snd ` set (fst (snd st)). action e = REMOVED \<Longrightarrow>
   \<forall>e\<in>snd ` set (fst (snd st')). action e = REMOVED"
proof (induction rule: rejects_on.induct)
  case rejects_none then show ?case by simp
next
  case (rejects_more rows m n j c v rsn)
  from rejects_more.IH [OF rejects_more.prems]
  have IH: "\<forall>e\<in>snd ` set m. action e = REMOVED" by simp
  show ?case unfolding snd_reject
    by (rule ball_snd_update) (simp, rule IH)
qed

lemma rejects_on_keys:
  "rejects_on A st st' \<Longrightarrow> fst ` set (fst (snd st)) \<subseteq> fst ` set (fst (snd st'))"
proof (induction rule: rejects_on.induct)
  case rejects_none show ?case by simp
next
  case (rejects_more rows m n j c v rsn)
  then have "fst ` set (fst (snd st)) \<subseteq> fst ` set m" by simp
  also have "\<dots> \<subseteq> fst ` set (fst (snd (reject j c v rsn (rows, m, n))))"
    unfolding snd_reject dom_update by blast
  finally show ?case .
qed

lemma quiet_reject:
  assumes "quiet rows lbl c" "j < length rows"
  shows "quiet (rows[j := setc c' None (rows ! j)]) lbl c"
  unfolding quiet_def
proof (intro ballI impI)
  fix r assume r: "r \<in> set (rows[j := setc c' None (rows ! j)])" "t r = lbl"
  then have "r = setc c' None (rows ! j) \<or> r \<in> set rows"
    using set_update_subset_insert by fastforce
  then show "getc c r = None"
  proof
    assume e: "r = setc c' None (rows ! j)"
    with r(2) have "t (rows ! j) = lbl" by simp
    with assms have "getc c (rows ! j) = None" by (auto simp: quiet_def)
    with e show ?thesis by (simp add: getc_setc)
  next
    assume "r \<in> set rows" with r(2) assms(1) show ?thesis by (auto simp: quiet_def)
  qed
qed

lemma rejects_on_quiet:
  "rejects_on A st st' \<Longrightarrow> quiet (fst st) lbl c \<Longrightarrow>
   quiet (fst st') lbl c \<and> map_of (fst (snd st')) (lbl, c) = map_of (fst (snd st)) (lbl, c)"
proof (induction rule: rejects_on.induct)
  case rejects_none then show ?case by simp
next
  case (rejects_more rows m n j c' v rsn)
  then have IH: "quiet rows lbl c" "map_of m (lbl, c) = map_of (fst (snd st)) (lbl, c)"
    by simp_all
  have q: "quiet (rows[j := setc c' None (rows ! j)]) lbl c"
    using IH(1) rejects_more.hyps(3) by (rule quiet_reject)
  have "(t (rows ! j), c') \<noteq> (lbl, c)"
  proof
    assume "(t (rows ! j), c') = (lbl, c)"
    with IH(1) rejects_more.hyps(3) have "getc c' (rows ! j) = None"
      by (auto simp: quiet_def)
    with rejects_more.hyps(4) show False by simp
  qed
  then have "map_of (AList.update (t (rows ! j), c') e m) (lbl, c) = map_of m (lbl, c)" for e
    by (auto simp: update_conv')
  with q IH(2) show ?case by (simp add: reject_def)
qed


lemma rejects_one:
  "j < length rows \<Longrightarrow> getc c (rows ! j) = Some v \<Longrightarrow> (j, c) \<in> A \<Longrightarrow>
   rejects_on A (rows, m, n) (reject j c v rsn (rows, m, n))"
  by (rule rejects_more [OF rejects_none])

lemma sd_step_rejects:
  assumes "j < length (fst st)"
  shows "rejects_on {(j, c)} st (sd_step i c mean stdDev st j)"
proof (cases st)
  case (fields rows m n)
  show ?thesis
  proof (cases "getc c (rows ! j)")
    case None
    with fields show ?thesis by (simp add: sd_step_def rejects_none)
  next
    case (Some v)
    with fields assms have "rejects_on {(j, c)} st (reject j c v (SD3 (i + 1) mean stdDev) st)"
      by (simp add: rejects_one)
    with Some fields show ?thesis by (simp add: sd_step_def rejects_none)
  qed
qed

lemma hr_step_rejects:
  assumes "j < length (fst st)"
  shows "rejects_on {(j, Col_HR)} st (hr_step i st j)"
proof (cases st)
  case (fields rows m n)
  show ?thesis
  proof (cases "HR (rows ! j)")
    case None
    with fields show ?thesis by (simp add: hr_step_def rejects_none)
  next
    case (Some hr)
    show ?thesis
    proof (cases "hr_reason i rows j hr")
      case None
      with Some fields show ?thesis by (simp add: hr_step_def rejects_none)
    next
      case (Some rsn)
      from \<open>HR (rows ! j) = Some hr\<close> fields assms
      have "rejects_on {(j, Col_HR)} st (reject j Col_HR hr rsn st)"
        by (simp add: rejects_one)
      with Some \<open>HR (rows ! j) = Some hr\<close> fields show ?thesis by (simp add: hr_step_def)
    qed
  qed
qed

lemma foldl_rejects:
  assumes "\<And>s x. x \<in> set xs \<Longrightarrow> length (fst s) = L \<Longrightarrow> rejects_on A s (f s x)"
    and "length (fst st) = L"
  shows "rejects_on A st (foldl f st xs)"
  using assms
proof (induction xs arbitrary: st)
  case Nil show ?case by (simp add: rejects_none)
next
  case (Cons x xs)
  have one: "rejects_on A st (f st x)" using Cons.prems by simp
  then have "length (fst (f st x)) = L" using Cons.prems(2) by (simp add: rejects_on_length)
  then have "rejects_on A (f st x) (foldl f (f st x) xs)"
    using Cons.prems(1) by (intro Cons.IH) simp_all
  then show ?case using one by (simp add: rejects_on_trans)
qed

lemma sd_col_rejects: "rejects_on {(j, c'). 3 \<le> j \<and> c' = c} st (sd_col i st c)"
proof -
  let ?vals = "valid_values (map (getc c) (drop 3 (fst st)))"
  have "rejects_on {(j, c'). 3 \<le> j \<and> c' = c} st
      (foldl (sd_step i c (mean_of ?vals) (stdDev_of ?vals)) st [3 ..< length (fst st)])"
  proof (rule foldl_rejects [where L = "length (fst st)"])
    fix s :: detect_state and x assume "x \<in> set [3 ..< length (fst st)]" "length (fst s) = length (fst st)"
    then have "x < length (fst s)" "3 \<le> x" by simp_all
    then show "rejects_on {(j, c'). 3 \<le> j \<and> c' = c} s
        (sd_step i c (mean_of ?vals) (stdDev_of ?vals) s x)"
      by (intro rejects_on_mono [OF sd_step_rejects]) auto
  qed simp
  then show ?thesis by (simp add: sd_col_def Let_def rejects_none)
qed

lemma hr_pass_rejects:
  "rejects_on {(j, c'). c' = Col_HR} st (foldl (hr_step i) st [0 ..< length (fst st)])"
proof (rule foldl_rejects [where L = "length (fst st)"])
  fix s :: detect_state and x assume "x \<in> set [0 ..< length (fst st)]" "length (fst s) = length (fst st)"
  then have "x < length (fst s)" by simp
  then show "rejects_on {(j, c'). c' = Col_HR} s (hr_step i s x)"
    by (intro rejects_on_mono [OF hr_step_rejects]) auto
qed simp

lemma sd_pass_rejects:
  "rejects_on {(j, c'). 3 \<le> j \<and> c' \<in> set cs} st (foldl (sd_col i) st cs)"
proof (rule foldl_rejects [where L = "length (fst st)"])
  fix s :: detect_state and c assume "c \<in> set cs"
  then show "rejects_on {(j, c'). 3 \<le> j \<and> c' \<in> set cs} s (sd_col i s c)"
    by (intro rejects_on_mono [OF sd_col_rejects]) auto
qed simp

lemma stage_body_rejects:
  "rejects_on {(j, c). 3 \<le> j \<or> c = Col_HR} st (stage_body i st)"
proof -
  let ?A = "{(j, c). 3 \<le> j \<or> c = Col_HR}"
  let ?st1 = "foldl (sd_col i) st OUTLIER_COLS"
  have 1: "rejects_on ?A st ?st1"
    by (rule rejects_on_mono [OF sd_pass_rejects]) auto
  have 2: "rejects_on ?A ?st1 (foldl (hr_step i) ?st1 [0 ..< length (fst ?st1)])"
    by (rule rejects_on_mono [OF hr_pass_rejects]) auto
  from 2 1 show ?thesis unfolding stage_body_def Let_def by (rule rejects_on_trans)
qed

lemma rejects_on_bounded:
  "rejects_on A st st' \<Longrightarrow> rejects_on (A \<inter> {(j, c). j < length (fst st)}) st st'"
proof (induction rule: rejects_on.induct)
  case rejects_none show ?case by (rule rejects_none)
next
  case (rejects_more rows m n j c v rsn)
  have "length rows = length (fst st)"
    using rejects_on_length [OF rejects_more.hyps(1)] by simp
  with rejects_more.hyps(2,3) have "(j, c) \<in> A \<inter> {(j, c). j < length (fst st)}" by simp
  with rejects_more.IH show ?case using rejects_more.hyps(3,4)
    by (intro rejects_on.rejects_more)
qed

lemma reject_splice:
  assumes "j < length rows"
  shows "reject (length pre + j) c v rsn (pre @ rows @ post, m, n) =
     (pre @ fst (reject j c v rsn (rows, m, n)) @ post, snd (reject j c v rsn (rows, m, n)))"
  using assms by (simp add: reject_def nth_append list_update_append)

lemma rejects_on_splice:
  "rejects_on A (sd, m, n) st' \<Longrightarrow>
   rejects_on ((\<lambda>(j, c). (length pre + j, c)) ` A) (pre @ sd @ post, m, n)
     (pre @ fst st' @ post, snd st')"
proof (induction rule: rejects_on.induct)
  case rejects_none show ?case by (simp add: rejects_on.rejects_none)
next
  case (rejects_more rows m' n' j c v rsn)
  let ?B = "(\<lambda>(j, c). (length pre + j, c)) ` A"
  have IH: "rejects_on ?B (pre @ sd @ post, m, n) (pre @ rows @ post, m', n')"
    using rejects_more.IH by simp
  have "rejects_on ?B (pre @ sd @ post, m, n)
      (reject (length pre + j) c v rsn (pre @ rows @ post, m', n'))"
  proof (rule rejects_on.rejects_more [OF IH])
    show "(length pre + j, c) \<in> ?B" using rejects_more.hyps(2) by force
    show "length pre + j < length (pre @ rows @ post)" using rejects_more.hyps(3) by simp
    show "getc c ((pre @ rows @ post) ! (length pre + j)) = Some v"
      using rejects_more.hyps(3,4) by (simp add: nth_append)
  qed
  then show ?case by (simp only: reject_splice [OF rejects_more.hyps(3)])
qed


lemma slice_split: "xs = take a xs @ take k (drop a xs) @ drop (a + k) xs"
proof -
  have "take k (drop a xs) @ drop (a + k) xs = drop a xs"
    by (metis append_take_drop_id drop_drop add.commute)
  then show ?thesis by simp
qed

lemma stage_body_length: "length (fst (stage_body i st)) = length (fst st)"
  using stage_body_rejects by (rule rejects_on_length)

lemma detect_stage_unfold:
  "detect_stage N (rows, m, n) i =
     (if length (take (min ((i + 1) * STAGE_ROWS) (length rows) - i * STAGE_ROWS)
                  (drop (i * STAGE_ROWS) rows)) < STAGE_ROWS \<and> int i = int N - 1
      then (rows, m, n)
      else (take (i * STAGE_ROWS) rows @
            fst (stage_body i (take (min ((i + 1) * STAGE_ROWS) (length rows) - i * STAGE_ROWS)
                  (drop (i * STAGE_ROWS) rows), m, n)) @
            drop (i * STAGE_ROWS +
                  length (fst (stage_body i
                    (take (min ((i + 1) * STAGE_ROWS) (length rows) - i * STAGE_ROWS)
                       (drop (i * STAGE_ROWS) rows), m, n)))) rows,
            snd (stage_body i (take (min ((i + 1) * STAGE_ROWS) (length rows) - i * STAGE_ROWS)
                  (drop (i * STAGE_ROWS) rows), m, n))))"
  unfolding detect_stage_def prod.case Let_def by (simp only: split_beta prod.collapse)

lemma detect_stage_full:
  assumes "(i + 1) * STAGE_ROWS \<le> length rows"
  shows "detect_stage N (rows, m, n) i =
     (take (i * STAGE_ROWS) rows @
        fst (stage_body i (take STAGE_ROWS (drop (i * STAGE_ROWS) rows), m, n)) @
        drop ((i + 1) * STAGE_ROWS) rows,
      snd (stage_body i (take STAGE_ROWS (drop (i * STAGE_ROWS) rows), m, n)))"
proof -
  let ?sd = "take STAGE_ROWS (drop (i * STAGE_ROWS) rows)"
  have stop: "min ((i + 1) * STAGE_ROWS) (length rows) - i * STAGE_ROWS = STAGE_ROWS"
    using assms by simp
  have len: "length ?sd = STAGE_ROWS" using assms by simp
  have len': "length (fst (stage_body i (?sd, m, n))) = STAGE_ROWS"
    using len by (simp add: stage_body_length)
  have no: "\<not> (length ?sd < STAGE_ROWS \<and> int i = int N - 1)" using len by simp
  have idx: "i * STAGE_ROWS + STAGE_ROWS = (i + 1) * STAGE_ROWS" by simp
  show ?thesis
    unfolding detect_stage_unfold stop by (simp only: if_not_P [OF no] len' idx)
qed

lemma detect_stage_skip:
  assumes "length rows < (i + 1) * STAGE_ROWS" "int i = int N - 1"
  shows "detect_stage N (rows, m, n) i = (rows, m, n)"
proof -
  have "length (take (min ((i + 1) * STAGE_ROWS) (length rows) - i * STAGE_ROWS)
      (drop (i * STAGE_ROWS) rows)) < STAGE_ROWS"
    using assms(1) by (simp add: STAGE_ROWS_def)
  with assms(2) have c: "length (take (min ((i + 1) * STAGE_ROWS) (length rows) - i * STAGE_ROWS)
      (drop (i * STAGE_ROWS) rows)) < STAGE_ROWS \<and> int i = int N - 1" by blast
  show ?thesis unfolding detect_stage_unfold by (rule if_P [OF c])
qed

lemma detect_stage_rejects:
  assumes "i * STAGE_ROWS \<le> length (fst st)"
  shows "rejects_on {(k, c). k div STAGE_ROWS = i \<and> (3 \<le> k mod STAGE_ROWS \<or> c = Col_HR)} st
     (detect_stage N st i)"
proof (cases st)
  case (fields rows m n)
  let ?A = "{(k, c). k div STAGE_ROWS = i \<and> (3 \<le> k mod STAGE_ROWS \<or> c = Col_HR)}"
  let ?start = "i * STAGE_ROWS"
  let ?k = "min ((i + 1) * STAGE_ROWS) (length rows) - ?start"
  let ?sd = "take ?k (drop ?start rows)"
  let ?pre = "take ?start rows"
  let ?post = "drop (?start + ?k) rows"
  have lpre: "length ?pre = ?start" using assms fields by simp
  have lsd: "length ?sd = ?k" using assms fields by simp
  have k18: "?k \<le> STAGE_ROWS" by simp
  have split: "rows = ?pre @ ?sd @ ?post" by (rule slice_split)
  show ?thesis
  proof (cases "length ?sd < STAGE_ROWS \<and> int i = int N - 1")
    case True
    then have "detect_stage N st i = st"
      unfolding fields detect_stage_unfold by (rule if_P)
    then show ?thesis by (simp add: rejects_none)
  next
    case False
    let ?st' = "stage_body i (?sd, m, n)"
    have l': "length (fst ?st') = ?k" using lsd by (simp add: stage_body_length)
    have res: "detect_stage N st i = (?pre @ fst ?st' @ ?post, snd ?st')"
      unfolding fields detect_stage_unfold by (simp only: if_not_P [OF False] l')
    have "rejects_on ({(j, c). 3 \<le> j \<or> c = Col_HR} \<inter> {(j, c). j < length (fst (?sd, m, n))})
        (?sd, m, n) ?st'"
      by (rule rejects_on_bounded [OF stage_body_rejects])
    then have "rejects_on
        ((\<lambda>(j, c). (length ?pre + j, c)) `
           ({(j, c). 3 \<le> j \<or> c = Col_HR} \<inter> {(j, c). j < length (fst (?sd, m, n))}))
        (?pre @ ?sd @ ?post, m, n) (?pre @ fst ?st' @ ?post, snd ?st')"
      by (rule rejects_on_splice)
    then have "rejects_on
        ((\<lambda>(j, c). (length ?pre + j, c)) `
           ({(j, c). 3 \<le> j \<or> c = Col_HR} \<inter> {(j, c). j < length (fst (?sd, m, n))}))
        st (detect_stage N st i)"
      using split fields res by simp
    moreover have "(\<lambda>(j, c). (length ?pre + j, c)) `
           ({(j, c). 3 \<le> j \<or> c = Col_HR} \<inter> {(j, c). j < length (fst (?sd, m, n))}) \<subseteq> ?A"
    proof (rule subsetI)
      fix x assume "x \<in> (\<lambda>(j, c). (length ?pre + j, c)) `
           ({(j, c). 3 \<le> j \<or> c = Col_HR} \<inter> {(j, c). j < length (fst (?sd, m, n))})"
      then obtain j c where x: "x = (length ?pre + j, c)"
        and jc: "3 \<le> j \<or> c = Col_HR" "j < length (fst (?sd, m, n))"
        by auto
      from jc(2) lsd k18 have j: "j < STAGE_ROWS" by simp
      then have "(?start + j) div STAGE_ROWS = i" "(?start + j) mod STAGE_ROWS = j"
        by (simp_all add: STAGE_ROWS_def)
      with jc(1) have "(?start + j, c) \<in> ?A" by auto
      then show "x \<in> ?A" unfolding x lpre .
    qed
    ultimately show ?thesis by (rule rejects_on_mono)
  qed
qed

lemma stage_index_bound: "i < (L + STAGE_ROWS - 1) div STAGE_ROWS \<Longrightarrow> i * STAGE_ROWS \<le> L"
  by (simp add: STAGE_ROWS_def)

lemma detect_stages_rejects:
  assumes "\<forall>i\<in>set is. i < (length (fst st) + STAGE_ROWS - 1) div STAGE_ROWS"
  shows "rejects_on {(k, c). k div STAGE_ROWS \<in> set is \<and> (3 \<le> k mod STAGE_ROWS \<or> c = Col_HR)} st
     (foldl (detect_stage N) st is)"
proof (rule foldl_rejects [where L = "length (fst st)"])
  fix s :: detect_state and i assume i: "i \<in> set is" and l: "length (fst s) = length (fst st)"
  with assms have "i * STAGE_ROWS \<le> length (fst s)" by (simp add: stage_index_bound)
  then have "rejects_on {(k, c). k div STAGE_ROWS = i \<and> (3 \<le> k mod STAGE_ROWS \<or> c = Col_HR)} s
     (detect_stage N s i)" by (rule detect_stage_rejects)
  then show "rejects_on {(k, c). k div STAGE_ROWS \<in> set is \<and> (3 \<le> k mod STAGE_ROWS \<or> c = Col_HR)} s
     (detect_stage N s i)"
    by (rule rejects_on_mono) (use i in auto)
qed simp

lemma detect_phase_rejects:
  "rejects_on {(k, c). 3 \<le> k mod STAGE_ROWS \<or> c = Col_HR} (data, [], 0) (detect_phase data)"
proof -
  have "rejects_on {(k, c). k div STAGE_ROWS \<in> set [0 ..< (length data + STAGE_ROWS - 1) div STAGE_ROWS]
          \<and> (3 \<le> k mod STAGE_ROWS \<or> c = Col_HR)} (data, [], 0)
     (foldl (detect_stage ((length data + STAGE_ROWS - 1) div STAGE_ROWS)) (data, [], 0)
        [0 ..< (length data + STAGE_ROWS - 1) div STAGE_ROWS])"
    by (rule detect_stages_rejects) simp
  then show ?thesis unfolding detect_phase_def Let_def
    by (rule rejects_on_mono) auto
qed


lemma rejects_on_row:
  "rejects_on A st st' \<Longrightarrow> k < length (fst st) \<Longrightarrow> \<forall>c. (k, c) \<notin> A \<Longrightarrow>
   fst st' ! k = fst st ! k"
proof (induction rule: rejects_on.induct)
  case rejects_none show ?case by simp
next
  case (rejects_more rows m n j c v rsn)
  from rejects_more.hyps(2) rejects_more.prems(2) have "j \<noteq> k" by auto
  then have "fst (reject j c v rsn (rows, m, n)) ! k = rows ! k"
    by (simp add: reject_def)
  with rejects_more.IH rejects_more.prems show ?case by simp
qed

lemma quiet_distinct:
  assumes "distinct (map t rows)" "k < length rows" "getc c (rows ! k) = None"
  shows "quiet rows (t (rows ! k)) c"
  unfolding quiet_def
proof (intro ballI impI)
  fix r assume "r \<in> set rows" "t r = t (rows ! k)"
  then obtain k' where k': "k' < length rows" "r = rows ! k'" by (auto simp: in_set_conv_nth)
  with \<open>t r = t (rows ! k)\<close> have "map t rows ! k' = map t rows ! k" using assms(2) by simp
  moreover have "k' < length (map t rows)" "k < length (map t rows)"
    using k'(1) assms(2) by simp_all
  ultimately have "k' = k" using assms(1) by (simp only: nth_eq_iff_index_eq)
  with k'(2) assms(3) show "getc c r = None" by simp
qed

lemma reject_cell:
  "j < length rows \<Longrightarrow> getc c (fst (reject j c v rsn (rows, m, n)) ! j) = None"
  by (simp add: reject_def getc_setc)

lemma reject_entry:
  "map_of (fst (snd (reject j c v rsn (rows, m, n)))) (t (rows ! j), c) =
     Some \<lparr>time = t (rows ! j), column = c, originalValue = v, reason = rsn,
           action = REMOVED, newValue = None\<rparr>"
  unfolding snd_reject by (simp add: update_conv')

lemma sd_step_out:
  assumes "getc c (rows ! j) = Some x" "x < mean - 3 * stdDev \<or> x > mean + 3 * stdDev"
  shows "sd_step i c mean stdDev (rows, m, n) j = reject j c x (SD3 (i + 1) mean stdDev) (rows, m, n)"
  using assms by (simp add: sd_step_def)

lemma sd_steps_rejects:
  assumes "b \<le> length (fst st)"
  shows "rejects_on {(k, c'). a \<le> k \<and> k < b \<and> c' = c} st
     (foldl (sd_step i c mean stdDev) st [a ..< b])"
proof (rule foldl_rejects [where L = "length (fst st)"])
  fix s :: detect_state and k assume "k \<in> set [a ..< b]" "length (fst s) = length (fst st)"
  then have k: "a \<le> k" "k < b" "k < length (fst s)" using assms by simp_all
  show "rejects_on {(k, c'). a \<le> k \<and> k < b \<and> c' = c} s (sd_step i c mean stdDev s k)"
    by (rule rejects_on_mono [OF sd_step_rejects [OF k(3)]]) (use k in auto)
qed simp

section \<open>Outlier detector: the final partial stage\<close>

lemma detect_stage_rejects_any:
  "i * STAGE_ROWS \<le> length (fst st) \<Longrightarrow> rejects_on UNIV st (detect_stage N st i)"
  by (rule rejects_on_mono [OF detect_stage_rejects]) simp_all

lemma detect_stage_tail:
  assumes "(i + 1) * STAGE_ROWS \<le> length r"
  shows "detect_stage N (r @ tail, m, n) i =
     (fst (detect_stage N' (r, m, n) i) @ tail, snd (detect_stage N' (r, m, n) i))"
proof -
  have a: "(i + 1) * STAGE_ROWS \<le> length (r @ tail)" using assms by simp
  have i: "i * STAGE_ROWS \<le> length r" using assms by simp
  have 1: "take (i * STAGE_ROWS) (r @ tail) = take (i * STAGE_ROWS) r" using i by simp
  have "STAGE_ROWS \<le> length (drop (i * STAGE_ROWS) r)" using assms by simp
  then have 2: "take STAGE_ROWS (drop (i * STAGE_ROWS) (r @ tail)) =
      take STAGE_ROWS (drop (i * STAGE_ROWS) r)"
    using i by simp
  have 3: "drop ((i + 1) * STAGE_ROWS) (r @ tail) = drop ((i + 1) * STAGE_ROWS) r @ tail"
    using assms by simp
  show ?thesis
    unfolding detect_stage_full [OF a] detect_stage_full [OF assms] 1 2 3 by simp
qed

lemma detect_stages_tail:
  assumes "j * STAGE_ROWS \<le> length pre"
  shows "foldl (detect_stage N) (pre @ tail, m, n) [0 ..< j] =
     (fst (foldl (detect_stage N') (pre, m, n) [0 ..< j]) @ tail,
      snd (foldl (detect_stage N') (pre, m, n) [0 ..< j])) \<and>
     length (fst (foldl (detect_stage N') (pre, m, n) [0 ..< j])) = length pre"
  using assms
proof (induction j)
  case 0 show ?case by simp
next
  case (Suc j)
  let ?X = "foldl (detect_stage N') (pre, m, n) [0 ..< j]"
  from Suc have IH: "foldl (detect_stage N) (pre @ tail, m, n) [0 ..< j] = (fst ?X @ tail, snd ?X)"
    and len: "length (fst ?X) = length pre" by simp_all
  have full: "(j + 1) * STAGE_ROWS \<le> length (fst ?X)" using Suc.prems len by simp
  have X: "?X = (fst ?X, fst (snd ?X), snd (snd ?X))" by simp
  have step: "detect_stage N (fst ?X @ tail, fst (snd ?X), snd (snd ?X)) j =
      (fst (detect_stage N' ?X j) @ tail, snd (detect_stage N' ?X j))"
    using detect_stage_tail [OF full, of N tail "fst (snd ?X)" "snd (snd ?X)" N'] by simp
  have "j * STAGE_ROWS \<le> length (fst ?X)" using full by simp
  then have "length (fst (detect_stage N' ?X j)) = length (fst ?X)"
    by (intro rejects_on_length [OF detect_stage_rejects_any])
  with len step IH show ?case by simp
qed


lemma detect_phase_whole_stages:
  assumes "length rows = q * STAGE_ROWS"
  shows "detect_phase rows = foldl (detect_stage q) (rows, [], 0) [0 ..< q]"
proof -
  have "(length rows + STAGE_ROWS - 1) div STAGE_ROWS = q"
    using assms by (simp add: STAGE_ROWS_def)
  then show ?thesis by (simp add: detect_phase_def Let_def)
qed

lemma whole_stage_count:
  assumes "r < STAGE_ROWS"
  shows "(q * STAGE_ROWS + r + STAGE_ROWS - 1) div STAGE_ROWS = (if r = 0 then q else Suc q)"
proof (cases "r = 0")
  case True then show ?thesis by (simp add: STAGE_ROWS_def)
next
  case False
  then have "q * 18 + r + 18 - 1 = (r - 1) + Suc q * 18" by simp
  moreover have "((r - 1) + Suc q * 18) div 18 = Suc q"
    using assms by (simp add: STAGE_ROWS_def)
  ultimately show ?thesis using False by (simp add: STAGE_ROWS_def)
qed

text \<open>
  Claim C6.  With \<open>k\<close> the number of rows in whole stages, the detector run on the series is
  the detector run on its first \<open>k\<close> rows, with the rows of the final partial stage appended
  as they are: the same audit map and counter as if those rows were absent (they are not
  scanned and enter no statistic), and the rows themselves unchanged.
\<close>

theorem partial_stage_untouched:
  "detect_phase data =
     (fst (detect_phase (take (length data div STAGE_ROWS * STAGE_ROWS) data)) @
        drop (length data div STAGE_ROWS * STAGE_ROWS) data,
      snd (detect_phase (take (length data div STAGE_ROWS * STAGE_ROWS) data))) \<and>
   length (fst (detect_phase (take (length data div STAGE_ROWS * STAGE_ROWS) data))) =
     length data div STAGE_ROWS * STAGE_ROWS \<and>
   drop (length data div STAGE_ROWS * STAGE_ROWS) (fst (detect_phase data)) =
     drop (length data div STAGE_ROWS * STAGE_ROWS) data"
proof -
  define q where "q = length data div STAGE_ROWS"
  define r where "r = length data mod STAGE_ROWS"
  define pre where "pre = take (q * STAGE_ROWS) data"
  define tail where "tail = drop (q * STAGE_ROWS) data"
  define N where "N = (length data + STAGE_ROWS - 1) div STAGE_ROWS"
  define X where "X = foldl (detect_stage q) (pre, [], 0) [0 ..< q]"
  have len: "length data = q * STAGE_ROWS + r" by (simp add: q_def r_def)
  have r: "r < STAGE_ROWS" by (simp add: r_def STAGE_ROWS_def)
  have lpre: "length pre = q * STAGE_ROWS" by (simp add: pre_def len)
  have ltail: "length tail = r" by (simp add: tail_def len)
  have data: "data = pre @ tail" by (simp add: pre_def tail_def)
  have pre: "detect_phase pre = X"
    unfolding X_def using lpre by (rule detect_phase_whole_stages)
  have "q * STAGE_ROWS \<le> length pre" by (simp add: lpre)
  from detect_stages_tail [OF this, of N tail "[]" 0 q]
  have whole: "foldl (detect_stage N) (data, [], 0) [0 ..< q] = (fst X @ tail, snd X)"
    and lenX: "length (fst X) = q * STAGE_ROWS"
    unfolding X_def [symmetric] data [symmetric] lpre by blast+
  have N: "N = (if r = 0 then q else Suc q)"
    unfolding N_def len using r by (rule whole_stage_count)
  have phase: "detect_phase data = (fst X @ tail, snd X)"
  proof (cases "r = 0")
    case True
    with N have "N = q" by simp
    with whole show ?thesis unfolding detect_phase_def Let_def N_def [symmetric] by simp
  next
    case False
    with N have N': "N = Suc q" by simp
    have short: "length (fst X @ tail) < (q + 1) * STAGE_ROWS"
      using lenX ltail r by simp
    have "detect_stage N (fst X @ tail, fst (snd X), snd (snd X)) q =
        (fst X @ tail, fst (snd X), snd (snd X))"
      using short by (rule detect_stage_skip) (simp add: N')
    then have "detect_stage N (fst X @ tail, snd X) q = (fst X @ tail, snd X)" by simp
    with whole have "foldl (detect_stage N) (data, [], 0) [0 ..< Suc q] = (fst X @ tail, snd X)"
      by simp
    then show ?thesis unfolding detect_phase_def Let_def N_def [symmetric] N' .
  qed
  have "drop (q * STAGE_ROWS) (fst (detect_phase data)) = tail"
    unfolding phase using lenX by simp
  with phase lenX show ?thesis
    unfolding pre [symmetric] pre_def tail_def q_def by blast
qed

section \<open>Outlier detector: the rule of 3 standard deviations\<close>

lemma in_OUTLIER_COLS: "c \<in> set OUTLIER_COLS"
  by (cases c) (simp_all add: OUTLIER_COLS_def)

lemma stage_body_sd:
  fixes sd :: "ProcessedDataRow list" and m :: auditMap and n :: int and c :: col
  defines "vals \<equiv> valid_values (map (getc c) (drop 3 sd))"
  assumes j3: "3 \<le> j" and jl: "j < length sd"
    and two: "2 \<le> length vals"
    and cell: "getc c (sd ! j) = Some x"
    and out: "x < mean_of vals - 3 * stdDev_of vals \<or> x > mean_of vals + 3 * stdDev_of vals"
  shows "getc c (fst (stage_body i (sd, m, n)) ! j) = None \<and>
     (t (sd ! j), c) \<in> fst ` set (fst (snd (stage_body i (sd, m, n)))) \<and>
     (distinct (map t sd) \<longrightarrow>
        map_of (fst (snd (stage_body i (sd, m, n)))) (t (sd ! j), c) =
          Some \<lparr>time = t (sd ! j), column = c, originalValue = x,
                reason = SD3 (i + 1) (mean_of vals) (stdDev_of vals),
                action = REMOVED, newValue = None\<rparr>)"
proof -
  let ?M = "mean_of vals" and ?S = "stdDev_of vals"
  obtain cs1 cs2 where cols: "OUTLIER_COLS = cs1 @ c # cs2" and notin: "c \<notin> set cs1"
    using split_list_first [OF in_OUTLIER_COLS [of c]] by blast
  define st0 :: detect_state where "st0 = (sd, m, n)"
  define st1 where "st1 = foldl (sd_col i) st0 cs1"
  have l0: "length (fst st0) = length sd" by (simp add: st0_def)
  \<comment> \<open>the passes of the columns before \<open>c\<close> leave column \<open>c\<close> alone\<close>
  have r1: "rejects_on {(k, c'). 3 \<le> k \<and> c' \<in> set cs1} st0 st1"
    unfolding st1_def by (rule sd_pass_rejects)
  have l1: "length (fst st1) = length sd"
    using rejects_on_length [OF r1] l0 by simp
  have col1: "getc c (fst st1 ! k) = getc c (sd ! k)" if "k < length sd" for k
  proof -
    have "getc c (fst st1 ! k) = getc c (fst st0 ! k)"
      using r1 by (rule rejects_on_frame) (use that l0 notin in auto)
    then show ?thesis by (simp add: st0_def)
  qed
  have "map (getc c) (fst st1) = map (getc c) sd"
    by (rule nth_equalityI) (simp_all add: l1 col1)
  then have "map (getc c) (drop 3 (fst st1)) = map (getc c) (drop 3 sd)"
    by (simp only: drop_map [symmetric])
  then have v1: "valid_values (map (getc c) (drop 3 (fst st1))) = vals"
    by (simp add: vals_def)
  \<comment> \<open>the pass of column \<open>c\<close>, split at row \<open>j\<close>\<close>
  have upt: "[3 ..< length sd] = [3 ..< j] @ j # [Suc j ..< length sd]"
  proof -
    have "[3 ..< j + (length sd - j)] = [3 ..< j] @ [j ..< j + (length sd - j)]"
      using j3 by (rule upt_add_eq_append)
    moreover have "j + (length sd - j) = length sd" using jl by simp
    ultimately have "[3 ..< length sd] = [3 ..< j] @ [j ..< length sd]" by simp
    then show ?thesis using jl by (simp add: upt_conv_Cons)
  qed
  define st2a where "st2a = foldl (sd_step i c ?M ?S) st1 [3 ..< j]"
  define st2b where "st2b = sd_step i c ?M ?S st2a j"
  define st3 where "st3 = foldl (sd_step i c ?M ?S) st2b [Suc j ..< length sd]"
  have col: "sd_col i st1 c = st3"
    using two unfolding sd_col_def Let_def v1 l1 upt st3_def st2b_def st2a_def
    by (simp add: not_less [symmetric])
  have r2a: "rejects_on {(k, c'). 3 \<le> k \<and> k < j \<and> c' = c} st1 st2a"
    unfolding st2a_def by (rule sd_steps_rejects) (use jl l1 in simp)
  have l2a: "length (fst st2a) = length sd"
    using rejects_on_length [OF r2a] l1 by simp
  have "getc c (fst st2a ! j) = getc c (fst st1 ! j)"
    using r2a by (rule rejects_on_frame) (use jl l1 in auto)
  then have c2a: "getc c (fst st2a ! j) = Some x" using col1 [OF jl] cell by simp
  have "map t (fst st2a) = map t (fst st0)"
    using rejects_on_labels [OF r2a] rejects_on_labels [OF r1] by simp
  then have lab2a: "map t (fst st2a) = map t sd" by (simp add: st0_def)
  then have "map t (fst st2a) ! j = map t sd ! j" by simp
  then have tj: "t (fst st2a ! j) = t (sd ! j)" using jl l2a by simp
  obtain rows2 m2 n2 where s2a: "st2a = (rows2, m2, n2)" by (cases st2a)
  have rj: "st2b = reject j c x (SD3 (i + 1) ?M ?S) (rows2, m2, n2)"
    unfolding st2b_def s2a using c2a out by (intro sd_step_out) (simp_all add: s2a)
  have jl2: "j < length rows2" using jl l2a by (simp add: s2a)
  have l2b: "length (fst st2b) = length sd"
    using l2a by (simp add: rj reject_def s2a)
  have cell2b: "getc c (fst st2b ! j) = None"
    unfolding rj using jl2 by (rule reject_cell)
  have ent2b: "map_of (fst (snd st2b)) (t (sd ! j), c) =
      Some \<lparr>time = t (sd ! j), column = c, originalValue = x, reason = SD3 (i + 1) ?M ?S,
            action = REMOVED, newValue = None\<rparr>"
    using reject_entry [of j c x "SD3 (i + 1) ?M ?S" rows2 m2 n2] tj
    by (simp add: rj s2a)
  have r2b: "rejects_on UNIV st2a st2b"
    unfolding st2b_def by (rule rejects_on_mono [OF sd_step_rejects]) (use jl l2a in simp_all)
  have lab2b: "map t (fst st2b) = map t sd"
    using rejects_on_labels [OF r2b] lab2a by simp
  \<comment> \<open>what follows in the stage\<close>
  define st4 where "st4 = foldl (sd_col i) st3 cs2"
  define X where "X = foldl (hr_step i) st4 [0 ..< length (fst st4)]"
  have body: "stage_body i (sd, m, n) = X"
    unfolding stage_body_def Let_def cols X_def st4_def
    by (simp add: col [unfolded st1_def st0_def])
  have r3: "rejects_on UNIV st2b st3"
    unfolding st3_def
    by (rule rejects_on_mono [OF sd_steps_rejects]) (simp_all add: l2b)
  have r4: "rejects_on UNIV st3 st4"
    unfolding st4_def by (rule rejects_on_mono [OF sd_pass_rejects]) simp
  have r5: "rejects_on UNIV st4 X"
    unfolding X_def by (rule rejects_on_mono [OF hr_pass_rejects]) simp
  have after: "rejects_on UNIV st2b X"
    by (rule rejects_on_trans [OF r5 rejects_on_trans [OF r4 r3]])
  have 1: "getc c (fst X ! j) = None"
    using after by (rule rejects_on_None) (use jl l2b cell2b in simp_all)
  have "(t (sd ! j), c) \<in> fst ` set (fst (snd st2b))"
    using ent2b by (metis domI dom_map_of_conv_image_fst)
  with rejects_on_keys [OF after] have 2: "(t (sd ! j), c) \<in> fst ` set (fst (snd X))" by blast
  have 3: "map_of (fst (snd X)) (t (sd ! j), c) =
      Some \<lparr>time = t (sd ! j), column = c, originalValue = x, reason = SD3 (i + 1) ?M ?S,
            action = REMOVED, newValue = None\<rparr>" if d: "distinct (map t sd)"
  proof -
    have "distinct (map t (fst st2b))" using d lab2b by simp
    then have "quiet (fst st2b) (t (fst st2b ! j)) c"
      by (rule quiet_distinct) (use jl l2b cell2b in simp_all)
    moreover have "t (fst st2b ! j) = t (sd ! j)"
      using arg_cong [OF lab2b, of "\<lambda>l. l ! j"] jl l2b by simp
    ultimately have "quiet (fst st2b) (t (sd ! j)) c" by simp
    from rejects_on_quiet [OF after this] ent2b show ?thesis by simp
  qed
  from 1 2 3 show ?thesis unfolding body by blast
qed


lemma in_keys_Some: "k \<in> fst ` set al \<Longrightarrow> \<exists>v. map_of al k = Some v \<and> v \<in> snd ` set al"
proof -
  assume "k \<in> fst ` set al"
  then obtain v where "map_of al k = Some v"
    by (metis map_of_eq_None_iff not_None_eq)
  moreover from this have "(k, v) \<in> set al" by (rule map_of_SomeD)
  ultimately show ?thesis by force
qed

lemma detect_phase_removed: "\<forall>e\<in>snd ` set (fst (snd (detect_phase data))). action e = REMOVED"
  by (rule rejects_on_removed [OF detect_phase_rejects]) simp

lemma stage_count_full:
  "(i + 1) * STAGE_ROWS \<le> L \<Longrightarrow> i < (L + STAGE_ROWS - 1) div STAGE_ROWS"
  by (simp add: STAGE_ROWS_def)

text \<open>
  Claim C1, amended.  In a stage \<open>i\<close> of 18 rows, for a primary channel \<open>c\<close> with at least 2
  numbers among the rows after the first 3 of the stage, with the mean and the population
  standard deviation of those numbers: a number at a row \<open>j \<ge> 3\<close> of the stage that lies more
  than 3 standard deviations from the mean is \<open>null\<close> after the detection phase, and the
  audit map holds a REMOVED entry for its key; when the time labels of the series are
  pairwise distinct, that entry records the time, the column, the original value, and as
  reason the stage number \<open>i + 1\<close> with that mean and standard deviation.  The first 3 rows of
  a stage are not scanned.
\<close>

theorem sd_rule_rejects:
  fixes data :: "ProcessedDataRow list" and c :: col and i :: nat
  defines "vals \<equiv> valid_values (map (getc c) (drop 3 (take STAGE_ROWS (drop (i * STAGE_ROWS) data))))"
  assumes full: "(i + 1) * STAGE_ROWS \<le> length data"
    and j3: "3 \<le> j" and j18: "j < STAGE_ROWS"
    and two: "2 \<le> length vals"
    and cell: "getc c (data ! (i * STAGE_ROWS + j)) = Some x"
    and out: "x < mean_of vals - 3 * stdDev_of vals \<or> x > mean_of vals + 3 * stdDev_of vals"
  shows "getc c (fst (detect_phase data) ! (i * STAGE_ROWS + j)) = None \<and>
     (\<exists>e. map_of (fst (snd (detect_phase data))) (t (data ! (i * STAGE_ROWS + j)), c) = Some e \<and>
          action e = REMOVED) \<and>
     (distinct (map t data) \<longrightarrow>
        map_of (fst (snd (detect_phase data))) (t (data ! (i * STAGE_ROWS + j)), c) =
          Some \<lparr>time = t (data ! (i * STAGE_ROWS + j)), column = c, originalValue = x,
                reason = SD3 (i + 1) (mean_of vals) (stdDev_of vals),
                action = REMOVED, newValue = None\<rparr>)"
proof -
  define N where "N = (length data + STAGE_ROWS - 1) div STAGE_ROWS"
  define s where "s = i * STAGE_ROWS"
  define sd where "sd = take STAGE_ROWS (drop s data)"
  define key where "key = (t (data ! (s + j)), c)"
  have iN: "i < N" unfolding N_def using full by (rule stage_count_full)
  have sL: "s + STAGE_ROWS \<le> length data" using full by (simp add: s_def)
  have kL: "s + j < length data" using sL j18 by simp
  have upt: "[0 ..< N] = [0 ..< i] @ i # [Suc i ..< N]"
  proof -
    have "[0 ..< i + (N - i)] = [0 ..< i] @ [i ..< i + (N - i)]" by (rule upt_add_eq_append) simp
    moreover have "i + (N - i) = N" using iN by simp
    ultimately have "[0 ..< N] = [0 ..< i] @ [i ..< N]" by simp
    then show ?thesis using iN by (simp add: upt_conv_Cons)
  qed
  define sta where "sta = foldl (detect_stage N) (data, [], 0) [0 ..< i]"
  define stb where "stb = detect_stage N sta i"
  have phase: "detect_phase data = foldl (detect_stage N) stb [Suc i ..< N]"
    unfolding detect_phase_def Let_def N_def [symmetric] upt stb_def sta_def by simp
  \<comment> \<open>the stages before stage \<open>i\<close>\<close>
  have ra: "rejects_on {(k, c). k div STAGE_ROWS \<in> set [0 ..< i] \<and>
        (3 \<le> k mod STAGE_ROWS \<or> c = Col_HR)} (data, [], 0) sta"
    unfolding sta_def by (rule detect_stages_rejects) (use iN in \<open>simp add: N_def\<close>)
  have la: "length (fst sta) = length data" using rejects_on_length [OF ra] by simp
  have rowa: "fst sta ! (s + k) = data ! (s + k)" if "k < STAGE_ROWS" for k
  proof -
    have "(s + k) div STAGE_ROWS = i" using that by (simp add: s_def)
    then have no: "\<forall>c. (s + k, c) \<notin> {(k, c). k div STAGE_ROWS \<in> set [0 ..< i] \<and>
        (3 \<le> k mod STAGE_ROWS \<or> c = Col_HR)}" by simp
    have "s + k < length (fst (data, []::auditMap, 0::int))" using that sL by simp
    from this no have "fst sta ! (s + k) = fst (data, []::auditMap, 0::int) ! (s + k)"
      by (rule rejects_on_row [OF ra])
    then show ?thesis by simp
  qed
  have slice: "take STAGE_ROWS (drop s (fst sta)) = sd"
    unfolding sd_def
  proof (rule nth_equalityI)
    show "length (take STAGE_ROWS (drop s (fst sta))) = length (take STAGE_ROWS (drop s data))"
      by (simp add: la)
    fix k assume "k < length (take STAGE_ROWS (drop s (fst sta)))"
    then have k: "k < STAGE_ROWS" by simp
    then show "take STAGE_ROWS (drop s (fst sta)) ! k = take STAGE_ROWS (drop s data) ! k"
      using rowa [OF k] sL la by simp
  qed
  have lsd: "length sd = STAGE_ROWS" using sL by (simp add: sd_def)
  have sdj: "sd ! j = data ! (s + j)" using j18 sL by (simp add: sd_def)
  \<comment> \<open>stage \<open>i\<close>\<close>
  obtain rowsa ma na where a: "sta = (rowsa, ma, na)" by (cases sta)
  define X where "X = stage_body i (sd, ma, na)"
  have lra: "length rowsa = length data" using la by (simp add: a)
  have "(i + 1) * STAGE_ROWS \<le> length rowsa" using full lra by simp
  from detect_stage_full [OF this, of N ma na]
  have b: "stb = (take s rowsa @ fst X @ drop ((i + 1) * STAGE_ROWS) rowsa, snd X)"
    unfolding stb_def a X_def s_def [symmetric] using slice by (simp add: a)
  have lX: "length (fst X) = STAGE_ROWS" unfolding X_def using lsd by (simp add: stage_body_length)
  have vals': "vals = valid_values (map (getc c) (drop 3 sd))"
    by (simp add: vals_def sd_def s_def)
  have jl: "j < length sd" using j18 lsd by simp
  have cell': "getc c (sd ! j) = Some x" using cell by (simp add: sdj s_def)
  note stage = stage_body_sd [OF j3 jl two [unfolded vals'] cell' out [unfolded vals'],
      of i ma na, folded X_def vals', unfolded sdj]
  have nthb: "fst stb ! (s + j) = fst X ! j"
    using j18 lX lra sL by (simp add: b nth_append)
  have rb: "rejects_on UNIV sta stb"
    unfolding stb_def by (rule detect_stage_rejects_any) (use la sL in \<open>simp add: s_def\<close>)
  have lb: "length (fst stb) = length data" using rejects_on_length [OF rb] la by simp
  have labb: "map t (fst stb) = map t data"
    using rejects_on_labels [OF rb] rejects_on_labels [OF ra] by simp
  have cellb: "getc c (fst stb ! (s + j)) = None" using stage nthb by simp
  have keyb: "key \<in> fst ` set (fst (snd stb))" using stage by (simp add: b key_def)
  \<comment> \<open>the stages after stage \<open>i\<close>\<close>
  have rc: "rejects_on {(k, c). k div STAGE_ROWS \<in> set [Suc i ..< N] \<and>
        (3 \<le> k mod STAGE_ROWS \<or> c = Col_HR)} stb (detect_phase data)"
    unfolding phase by (rule detect_stages_rejects) (simp add: lb N_def)
  have 1: "getc c (fst (detect_phase data) ! (s + j)) = None"
    using rc by (rule rejects_on_None) (use kL lb cellb in simp_all)
  have "key \<in> fst ` set (fst (snd (detect_phase data)))"
    using rejects_on_keys [OF rc] keyb by blast
  from in_keys_Some [OF this] detect_phase_removed [of data]
  have 2: "\<exists>e. map_of (fst (snd (detect_phase data))) key = Some e \<and> action e = REMOVED"
    by blast
  have 3: "map_of (fst (snd (detect_phase data))) key =
          Some \<lparr>time = t (data ! (s + j)), column = c, originalValue = x,
                reason = SD3 (i + 1) (mean_of vals) (stdDev_of vals),
                action = REMOVED, newValue = None\<rparr>" if d: "distinct (map t data)"
  proof -
    have "map t sd = take STAGE_ROWS (drop s (map t data))"
      by (simp add: sd_def take_map drop_map)
    with d have "distinct (map t sd)" by simp
    with stage have e: "map_of (fst (snd stb)) key =
          Some \<lparr>time = t (data ! (s + j)), column = c, originalValue = x,
                reason = SD3 (i + 1) (mean_of vals) (stdDev_of vals),
                action = REMOVED, newValue = None\<rparr>"
      by (simp add: b key_def)
    have "distinct (map t (fst stb))" using d labb by simp
    then have "quiet (fst stb) (t (fst stb ! (s + j))) c"
      by (rule quiet_distinct) (use kL lb cellb in simp_all)
    moreover have "t (fst stb ! (s + j)) = t (data ! (s + j))"
      using arg_cong [OF labb, of "\<lambda>l. l ! (s + j)"] kL lb by simp
    ultimately have "quiet (fst stb) (t (data ! (s + j))) c" by simp
    from rejects_on_quiet [OF rc this] e show ?thesis by (simp add: key_def)
  qed
  from 1 2 3 show ?thesis unfolding key_def s_def by blast
qed


lemma length_sd_in: "length sd_in = 18"
  by (simp add: sd_in_def)

lemma vals_sd_in:
  "valid_values (map (getc Col_VO2) (drop 3 (take STAGE_ROWS (drop (0 * STAGE_ROWS) sd_in)))) = sd_vals"
  by (simp add: sd_in_def sd_vals_def STAGE_ROWS_def valid_values_def List.map_filter_simps
      vo2_row_def blank_def)

lemma mean_sd_vals: "mean_of sd_vals = 1028 / 15"
  by (simp add: mean_of_def sd_vals_def)

lemma stdDev_sd_vals: "stdDev_of sd_vals = sqrt (13944056 / 225)"
proof -
  have "foldl (+) 0 (map (\<lambda>x. (x - 1028 / 15) ^ 2) sd_vals) / real (length sd_vals) =
      13944056 / 225"
    by (simp add: sd_vals_def power2_eq_square)
  then show ?thesis by (simp only: stdDev_of_def mean_sd_vals)
qed

lemma band_sd_vals: "mean_of sd_vals + 3 * stdDev_of sd_vals < 1000"
proof -
  have "sqrt (13944056 / 225) < 13972 / 45"
    by (rule real_less_lsqrt) (simp_all add: power2_eq_square)
  then show ?thesis by (simp add: mean_sd_vals stdDev_sd_vals)
qed

lemma distinct_sd_in: "distinct (map t sd_in)"
  by (simp add: sd_in_def vo2_row_def blank_def)

text \<open>Row 10 of the 18-row stage \<open>sd_in\<close>, with VO2 1000 among values of 2.\<close>

theorem sd_rule_rejects_witness:
  "getc Col_VO2 (fst (detect_phase sd_in) ! 10) = None \<and>
   map_of (fst (snd (detect_phase sd_in))) (''0:01:50'', Col_VO2) =
     Some \<lparr>time = ''0:01:50'', column = Col_VO2, originalValue = 1000,
           reason = SD3 1 (mean_of sd_vals) (stdDev_of sd_vals),
           action = REMOVED, newValue = None\<rparr>"
proof -
  have full: "(0 + 1) * STAGE_ROWS \<le> length sd_in" by (simp add: length_sd_in STAGE_ROWS_def)
  have j: "(3::nat) \<le> 10" "(10::nat) < STAGE_ROWS" by (simp_all add: STAGE_ROWS_def)
  have two: "2 \<le> length (valid_values (map (getc Col_VO2)
      (drop 3 (take STAGE_ROWS (drop (0 * STAGE_ROWS) sd_in)))))"
    unfolding vals_sd_in by (simp add: sd_vals_def)
  have cell: "getc Col_VO2 (sd_in ! (0 * STAGE_ROWS + 10)) = Some 1000"
    by (simp add: sd_in_def vo2_row_def blank_def)
  have lbl: "t (sd_in ! (0 * STAGE_ROWS + 10)) = ''0:01:50''"
    by (simp add: sd_in_def vo2_row_def blank_def)
  have out: "1000 < mean_of (valid_values (map (getc Col_VO2)
        (drop 3 (take STAGE_ROWS (drop (0 * STAGE_ROWS) sd_in))))) -
        3 * stdDev_of (valid_values (map (getc Col_VO2)
        (drop 3 (take STAGE_ROWS (drop (0 * STAGE_ROWS) sd_in))))) \<or>
      1000 > mean_of (valid_values (map (getc Col_VO2)
        (drop 3 (take STAGE_ROWS (drop (0 * STAGE_ROWS) sd_in))))) +
        3 * stdDev_of (valid_values (map (getc Col_VO2)
        (drop 3 (take STAGE_ROWS (drop (0 * STAGE_ROWS) sd_in)))))"
    unfolding vals_sd_in using band_sd_vals by simp
  note th = sd_rule_rejects [OF full j two cell out, unfolded vals_sd_in lbl]
  from th distinct_sd_in show ?thesis by simp
qed

text \<open>
  Row 0 of \<open>sd_in\<close> holds VO2 1000, more than 3 standard deviations above the mean of the
  rows 3 to 17, and keeps it through the detection phase.
\<close>

theorem sd_rule_first_rows_counterexample:
  "length sd_in = STAGE_ROWS \<and>
   2 \<le> length (valid_values (map (getc Col_VO2) (drop 3 sd_in))) \<and>
   getc Col_VO2 (sd_in ! 0) = Some 1000 \<and>
   mean_of (valid_values (map (getc Col_VO2) (drop 3 sd_in))) +
     3 * stdDev_of (valid_values (map (getc Col_VO2) (drop 3 sd_in))) < 1000 \<and>
   getc Col_VO2 (fst (detect_phase sd_in) ! 0) = Some 1000"
proof -
  have v: "valid_values (map (getc Col_VO2) (drop 3 sd_in)) = sd_vals"
    using vals_sd_in by (simp add: STAGE_ROWS_def length_sd_in)
  have "getc Col_VO2 (fst (detect_phase sd_in) ! 0) =
      getc Col_VO2 (fst (sd_in, []::auditMap, 0::int) ! 0)"
    by (rule rejects_on_frame [OF detect_phase_rejects])
      (simp_all add: length_sd_in STAGE_ROWS_def)
  moreover have "getc Col_VO2 (sd_in ! 0) = Some 1000"
    by (simp add: sd_in_def vo2_row_def blank_def)
  moreover have "2 \<le> length sd_vals" by (simp add: sd_vals_def)
  ultimately show ?thesis
    using band_sd_vals by (simp add: v length_sd_in STAGE_ROWS_def)
qed

section \<open>Audit log and counters\<close>

lemma alist_split:
  "distinct (map fst al) \<Longrightarrow> map_of al k = Some e \<Longrightarrow>
   \<exists>xs ys. al = xs @ (k, e) # ys \<and> k \<notin> fst ` set xs \<and> k \<notin> fst ` set ys"
proof -
  assume d: "distinct (map fst al)" and m: "map_of al k = Some e"
  from m have "(k, e) \<in> set al" by (rule map_of_SomeD)
  then obtain xs ys where al: "al = xs @ (k, e) # ys" by (meson split_list)
  from d have "distinct (map fst xs @ k # map fst ys)" unfolding al by simp
  then have "k \<notin> set (map fst xs)" "k \<notin> set (map fst ys)" by simp_all
  then have "k \<notin> fst ` set xs" "k \<notin> fst ` set ys" by simp_all
  with al show ?thesis by blast
qed

lemma update_split:
  "k \<notin> fst ` set xs \<Longrightarrow> AList.update k e' (xs @ (k, e) # ys) = xs @ (k, e') # ys"
  by (induction xs) auto

lemma delete_split:
  "k \<notin> fst ` set xs \<Longrightarrow> k \<notin> fst ` set ys \<Longrightarrow> AList.delete k (xs @ (k, e) # ys) = xs @ ys"
  by (induction xs) (auto simp: delete_id)

lemma update_new:
  "k \<notin> fst ` set al \<Longrightarrow> AList.update k e al = al @ [(k, e)]"
  by (induction al) auto

lemma rejects_on_count:
  "rejects_on A st st' \<Longrightarrow> distinct (map t (fst st)) \<Longrightarrow> distinct (map fst (fst (snd st))) \<Longrightarrow>
   (\<forall>key\<in>fst ` set (fst (snd st)). quiet (fst st) (fst key) (snd key)) \<Longrightarrow>
   distinct (map fst (fst (snd st'))) \<and>
   (\<forall>key\<in>fst ` set (fst (snd st')). quiet (fst st') (fst key) (snd key)) \<and>
   snd (snd st') - snd (snd st) = int (length (fst (snd st'))) - int (length (fst (snd st)))"
proof (induction rule: rejects_on.induct)
  case rejects_none then show ?case by simp
next
  case (rejects_more rows m n j c v rsn)
  note IH = rejects_more.IH [OF rejects_more.prems]
  have dm: "distinct (map fst m)" using IH by simp
  have qm: "\<forall>key\<in>fst ` set m. quiet rows (fst key) (snd key)" using IH by simp
  have cnt: "n - snd (snd st) = int (length m) - int (length (fst (snd st)))" using IH by simp
  have lab: "map t rows = map t (fst st)"
    using rejects_on_labels [OF rejects_more.hyps(1)] by simp
  let ?key = "(t (rows ! j), c)"
  let ?e = "\<lparr>time = t (rows ! j), column = c, originalValue = v, reason = rsn,
      action = REMOVED, newValue = None\<rparr>"
  let ?rows' = "rows[j := setc c None (rows ! j)]"
  have new: "?key \<notin> fst ` set m"
  proof
    assume "?key \<in> fst ` set m"
    with qm have "quiet rows (fst ?key) (snd ?key)" by (rule bspec)
    then have "quiet rows (t (rows ! j)) c" by simp
    with rejects_more.hyps(3) have "getc c (rows ! j) = None" by (auto simp: quiet_def)
    with rejects_more.hyps(4) show False by simp
  qed
  have st': "reject j c v rsn (rows, m, n) = (?rows', m @ [(?key, ?e)], n + 1)"
    using new by (simp add: reject_def update_new)
  have d': "distinct (map fst (m @ [(?key, ?e)]))" using dm new by (simp add: image_iff)
  have lab': "map t ?rows' = map t rows"
    using rejects_more.hyps(3) by (simp add: map_update list_update_same_conv)
  have "distinct (map t ?rows')" using lab' lab rejects_more.prems(1) by simp
  moreover have "j < length ?rows'" using rejects_more.hyps(3) by simp
  moreover have "getc c (?rows' ! j) = None"
    using rejects_more.hyps(3) by (simp add: getc_setc)
  ultimately have "quiet ?rows' (t (?rows' ! j)) c" by (rule quiet_distinct)
  then have qnew: "quiet ?rows' (t (rows ! j)) c" using rejects_more.hyps(3) by simp
  have qold: "quiet ?rows' (fst key) (snd key)" if "key \<in> fst ` set m" for key
  proof -
    from qm that have "quiet rows (fst key) (snd key)" by (rule bspec)
    then show ?thesis using rejects_more.hyps(3) by (rule quiet_reject)
  qed
  have q': "\<forall>key\<in>fst ` set (m @ [(?key, ?e)]). quiet ?rows' (fst key) (snd key)"
  proof
    fix key assume "key \<in> fst ` set (m @ [(?key, ?e)])"
    then have "key = ?key \<or> key \<in> fst ` set m" by auto
    then show "quiet ?rows' (fst key) (snd key)"
    proof
      assume "key = ?key" with qnew show ?thesis by simp
    next
      assume "key \<in> fst ` set m" then show ?thesis by (rule qold)
    qed
  qed
  have 1: "fst (snd (?rows', m @ [(?key, ?e)], n + 1)) = m @ [(?key, ?e)]" by simp
  have 2: "fst (?rows', m @ [(?key, ?e)], n + 1) = ?rows'" by simp
  have 3: "snd (snd (?rows', m @ [(?key, ?e)], n + 1)) = n + 1" by simp
  have "n + 1 - snd (snd st) = int (length (m @ [(?key, ?e)])) - int (length (fst (snd st)))"
    using cnt by simp
  with d' q' show ?case unfolding st' 1 2 3 by blast
qed

lemma detect_phase_counts:
  assumes "distinct (map t data)"
  shows "distinct (map t (fst (detect_phase data))) \<and>
     distinct (map fst (fst (snd (detect_phase data)))) \<and>
     snd (snd (detect_phase data)) = int (length (fst (snd (detect_phase data)))) \<and>
     (\<forall>e\<in>snd ` set (fst (snd (detect_phase data))). action e = REMOVED)"
proof -
  from rejects_on_count [OF detect_phase_rejects] assms
  have "distinct (map fst (fst (snd (detect_phase data))))"
    "snd (snd (detect_phase data)) = int (length (fst (snd (detect_phase data))))"
    by simp_all
  moreover have "map t (fst (detect_phase data)) = map t data"
    using rejects_on_labels [OF detect_phase_rejects] by simp
  ultimately show ?thesis using assms detect_phase_removed by simp
qed


lemma filled_labels:
  "i < length rows \<Longrightarrow> map t (rows[i := setc c w (rows ! i)]) = map t rows"
  by (simp add: map_update list_update_same_conv)

lemma filled_nonnull:
  assumes "\<forall>r\<in>set rows. t r = lbl \<longrightarrow> getc c' r \<noteq> None" "i < length rows"
  shows "\<forall>r\<in>set (rows[i := setc c (Some w) (rows ! i)]). t r = lbl \<longrightarrow> getc c' r \<noteq> None"
proof (intro ballI impI)
  fix r assume r: "r \<in> set (rows[i := setc c (Some w) (rows ! i)])" "t r = lbl"
  then have "r = setc c (Some w) (rows ! i) \<or> r \<in> set rows"
    using set_update_subset_insert by fastforce
  then show "getc c' r \<noteq> None"
  proof
    assume e: "r = setc c (Some w) (rows ! i)"
    with r(2) have "t (rows ! i) = lbl" by simp
    moreover have "rows ! i \<in> set rows" using assms(2) by simp
    ultimately have "getc c' (rows ! i) \<noteq> None" using assms(1) by blast
    with e show ?thesis by (simp add: getc_setc)
  next
    assume "r \<in> set rows" with r(2) assms(1) show ?thesis by blast
  qed
qed

lemma label_unique:
  assumes "distinct (map t rows)" "i < length rows" "r \<in> set rows" "t r = t (rows ! i)"
  shows "r = rows ! i"
proof -
  from assms(3) obtain k where k: "k < length rows" "r = rows ! k"
    by (auto simp: in_set_conv_nth)
  with assms(4) have "map t rows ! k = map t rows ! i" using assms(2) by simp
  moreover have "k < length (map t rows)" "i < length (map t rows)"
    using k(1) assms(2) by simp_all
  ultimately have "k = i" using assms(1) by (simp only: nth_eq_iff_index_eq)
  with k(2) show ?thesis by simp
qed

lemma log_invI:
  "distinct (map t rows) \<Longrightarrow> distinct (map fst m) \<Longrightarrow> int (length m) = a \<Longrightarrow>
   int (length (filter (\<lambda>e. action e = INTERPOLATED) (map snd m))) = b \<Longrightarrow>
   (\<And>p. p \<in> set m \<Longrightarrow> action (snd p) = INTERPOLATED \<Longrightarrow>
      \<forall>r\<in>set rows. t r = fst (fst p) \<longrightarrow> getc (snd (fst p)) r \<noteq> None) \<Longrightarrow>
   log_inv (rows, m, a, b)"
  unfolding log_inv_def by simp

lemma log_invD:
  assumes "log_inv (rows, m, a, b)"
  shows "distinct (map t rows)" "distinct (map fst m)" "int (length m) = a"
    "int (length (filter (\<lambda>e. action e = INTERPOLATED) (map snd m))) = b"
    "\<And>p. p \<in> set m \<Longrightarrow> action (snd p) = INTERPOLATED \<Longrightarrow>
      \<forall>r\<in>set rows. t r = fst (fst p) \<longrightarrow> getc (snd (fst p)) r \<noteq> None"
  using assms unfolding log_inv_def by simp_all

lemma fill_cell_inv:
  assumes inv: "log_inv (rows, m, a, b)" and i: "i < length rows"
    and null: "getc c (rows ! i) = None"
  shows "log_inv (fill_cell c i v (rows, m, a, b))"
proof -
  note I = log_invD [OF inv]
  let ?key = "(t (rows ! i), c)"
  have lab: "map t (rows[i := setc c w (rows ! i)]) = map t rows" for w
    using i by (rule filled_labels)
  have dl: "distinct (map t (rows[i := setc c w (rows ! i)]))" for w
    using I(1) by (simp only: lab)
  have keep: "\<forall>r\<in>set (rows[i := setc c (Some w) (rows ! i)]).
      t r = fst (fst p) \<longrightarrow> getc (snd (fst p)) r \<noteq> None"
    if "p \<in> set m" "action (snd p) = INTERPOLATED" for p w
    using I(5) [OF that] i by (rule filled_nonnull)
  show ?thesis
  proof (cases "map_of m ?key")
    case None
    then have "fill_cell c i v (rows, m, a, b) = (rows[i := setc c (Some v) (rows ! i)], m, a, b)"
      by (simp add: fill_cell_def)
    moreover have "log_inv (rows[i := setc c (Some v) (rows ! i)], m, a, b)"
      using dl I(2,3,4) keep by (rule log_invI)
    ultimately show ?thesis by simp
  next
    case (Some e)
    from alist_split [OF I(2) Some] obtain xs ys where
      m: "m = xs @ (?key, e) # ys" and nx: "?key \<notin> fst ` set xs" and ny: "?key \<notin> fst ` set ys"
      by blast
    have rem: "action e = REMOVED"
    proof (rule ccontr)
      assume "action e \<noteq> REMOVED"
      then have "action (snd (?key, e)) = INTERPOLATED" by (cases "action e") simp_all
      moreover have "(?key, e) \<in> set m" by (simp add: m)
      ultimately have "\<forall>r\<in>set rows. t r = fst (fst (?key, e)) \<longrightarrow>
          getc (snd (fst (?key, e))) r \<noteq> None" by (rule I(5) [rotated])
      moreover have "rows ! i \<in> set rows" using i by simp
      ultimately have "getc c (rows ! i) \<noteq> None" by simp
      with null show False by simp
    qed
    have cnt: "length (filter (\<lambda>e. action e = INTERPOLATED) (map snd m)) =
        length (filter (\<lambda>e. action e = INTERPOLATED) (map snd (xs @ ys)))"
      using rem by (simp add: m)
    show ?thesis
    proof (cases "\<bar>originalValue e - v\<bar> < 1 / 1000000")
      case True
      with Some have res: "fill_cell c i v (rows, m, a, b) =
          (rows[i := setc c (Some (originalValue e)) (rows ! i)], xs @ ys, a - 1, b)"
        using delete_split [OF nx ny, of e] by (simp add: fill_cell_def m)
      have "distinct (map fst (xs @ ys))" using I(2) by (simp add: m)
      moreover have "int (length (xs @ ys)) = a - 1" using I(3) by (simp add: m)
      moreover have "int (length (filter (\<lambda>e. action e = INTERPOLATED) (map snd (xs @ ys)))) = b"
        using I(4) cnt by simp
      moreover have "\<forall>r\<in>set (rows[i := setc c (Some (originalValue e)) (rows ! i)]).
          t r = fst (fst p) \<longrightarrow> getc (snd (fst p)) r \<noteq> None"
        if "p \<in> set (xs @ ys)" "action (snd p) = INTERPOLATED" for p
      proof -
        from that(1) have "p \<in> set m" by (auto simp: m)
        then show ?thesis using that(2) by (rule keep)
      qed
      ultimately have "log_inv (rows[i := setc c (Some (originalValue e)) (rows ! i)],
          xs @ ys, a - 1, b)"
        using dl by (intro log_invI)
      then show ?thesis by (simp only: res)
    next
      case False
      let ?e' = "e\<lparr>action := INTERPOLATED, newValue := Some v\<rparr>"
      let ?rows' = "rows[i := setc c (Some v) (rows ! i)]"
      from False Some have res: "fill_cell c i v (rows, m, a, b) =
          (?rows', xs @ (?key, ?e') # ys, a, b + 1)"
        using update_split [OF nx, of ?e' e ys] by (simp add: fill_cell_def m)
      have "distinct (map fst (xs @ (?key, ?e') # ys))" using I(2) by (simp add: m)
      moreover have "int (length (xs @ (?key, ?e') # ys)) = a" using I(3) by (simp add: m)
      moreover have "int (length (filter (\<lambda>e. action e = INTERPOLATED)
          (map snd (xs @ (?key, ?e') # ys)))) = b + 1"
        using I(4) cnt by simp
      moreover have "\<forall>r\<in>set ?rows'. t r = fst (fst p) \<longrightarrow> getc (snd (fst p)) r \<noteq> None"
        if p: "p \<in> set (xs @ (?key, ?e') # ys)" "action (snd p) = INTERPOLATED" for p
      proof (cases "p = (?key, ?e')")
        case True
        show ?thesis
        proof (intro ballI impI)
          fix r assume r: "r \<in> set ?rows'" "t r = fst (fst p)"
          have "i < length ?rows'" using i by simp
          moreover have "t r = t (?rows' ! i)" using r(2) True i by simp
          ultimately have "r = ?rows' ! i" using dl r(1) by (intro label_unique)
          then show "getc (snd (fst p)) r \<noteq> None" using True i by (simp add: getc_setc)
        qed
      next
        case False
        with p(1) have "p \<in> set m" by (auto simp: m)
        then show ?thesis using p(2) by (rule keep)
      qed
      ultimately have "log_inv (?rows', xs @ (?key, ?e') # ys, a, b + 1)"
        using dl by (intro log_invI)
      then show ?thesis by (simp only: res)
    qed
  qed
qed


lemma fill_cell_length: "length (fst (fill_cell c i v st)) = length (fst st)"
  by (cases st) (simp add: fill_cell_def Let_def split: option.split)

lemma interp_step_cases:
  "interp_step c st i = st \<or>
   (getc c (fst st ! i) = None \<and> (\<exists>v. interp_step c st i = fill_cell c i v st))"
  by (auto simp: interp_step_def split: option.splits)

lemma interp_step_length: "length (fst (interp_step c st i)) = length (fst st)"
  using interp_step_cases [of c st i] by (auto simp: fill_cell_length)

lemma interp_step_inv:
  assumes "log_inv st" "i < length (fst st)"
  shows "log_inv (interp_step c st i)"
proof -
  obtain rows m a b where st: "st = (rows, m, a, b)" by (cases st)
  from interp_step_cases [of c st i] show ?thesis
  proof
    assume "interp_step c st i = st" with assms(1) show ?thesis by simp
  next
    assume "getc c (fst st ! i) = None \<and> (\<exists>v. interp_step c st i = fill_cell c i v st)"
    then obtain v where null: "getc c (rows ! i) = None"
      and eq: "interp_step c st i = fill_cell c i v (rows, m, a, b)"
      by (auto simp: st)
    have "log_inv (fill_cell c i v (rows, m, a, b))"
      using assms null by (intro fill_cell_inv) (simp_all add: st)
    with eq show ?thesis by simp
  qed
qed

lemma interp_steps_inv:
  "log_inv st \<Longrightarrow> \<forall>i\<in>set is. i < length (fst st) \<Longrightarrow>
   log_inv (foldl (interp_step c) st is) \<and>
   length (fst (foldl (interp_step c) st is)) = length (fst st)"
proof (induction "is" arbitrary: st)
  case Nil then show ?case by simp
next
  case (Cons i "is")
  have 1: "log_inv (interp_step c st i)" using Cons.prems by (intro interp_step_inv) simp_all
  have 2: "length (fst (interp_step c st i)) = length (fst st)" by (rule interp_step_length)
  have 3: "\<forall>k\<in>set is. k < length (fst (interp_step c st i))" using Cons.prems(2) 2 by simp
  from Cons.IH [OF 1 3] 2 show ?case by simp
qed

lemma interp_col_inv:
  "log_inv st \<Longrightarrow> log_inv (interp_col st c) \<and> length (fst (interp_col st c)) = length (fst st)"
  unfolding interp_col_def by (rule interp_steps_inv) simp_all

lemma interp_cols_inv: "log_inv st \<Longrightarrow> log_inv (foldl interp_col st cs)"
  by (induction cs arbitrary: st) (simp_all add: interp_col_inv)

lemma log_inv_detect:
  assumes "distinct (map t data)"
  shows "log_inv (fst (detect_phase data), fst (snd (detect_phase data)),
     snd (snd (detect_phase data)), 0)"
proof (rule log_invI)
  note D = detect_phase_counts [OF assms]
  show "distinct (map t (fst (detect_phase data)))" using D by simp
  show "distinct (map fst (fst (snd (detect_phase data))))" using D by simp
  show "int (length (fst (snd (detect_phase data)))) = snd (snd (detect_phase data))"
    using D by simp
  have rem: "\<forall>e\<in>snd ` set (fst (snd (detect_phase data))). action e = REMOVED" using D by simp
  then have "filter (\<lambda>e. action e = INTERPOLATED) (map snd (fst (snd (detect_phase data)))) = []"
    by (auto simp: filter_empty_conv)
  then show "int (length (filter (\<lambda>e. action e = INTERPOLATED)
      (map snd (fst (snd (detect_phase data)))))) = 0" by simp
  fix p assume "p \<in> set (fst (snd (detect_phase data)))" "action (snd p) = INTERPOLATED"
  with rem have False by force
  then show "\<forall>r\<in>set (fst (detect_phase data)). t r = fst (fst p) \<longrightarrow>
      getc (snd (fst p)) r \<noteq> None" ..
qed

lemma interp_phase_inv:
  assumes "distinct (map t data)"
  shows "log_inv (interp_phase (detect_phase data))"
proof -
  have "interp_phase (detect_phase data) =
      foldl interp_col (fst (detect_phase data), fst (snd (detect_phase data)),
        snd (snd (detect_phase data)), 0) OUTLIER_COLS"
    by (simp add: interp_phase_def split_beta)
  then show ?thesis using interp_cols_inv [OF log_inv_detect [OF assms]] by simp
qed

lemma filter_insert_entry:
  "length (filter P (insert_entry cmp a bs)) = length (filter P (a # bs))"
  by (induction bs) auto

lemma filter_sort_log: "length (filter P (sort_log cmp es)) = length (filter P es)"
  unfolding sort_log_def
proof (induction es)
  case Nil show ?case by simp
next
  case (Cons a es)
  have "length (filter P (insert_entry cmp a (foldr (insert_entry cmp) es []))) =
      length (filter P (a # foldr (insert_entry cmp) es []))"
    by (rule filter_insert_entry)
  with Cons show ?case by simp
qed

lemma count_actions:
  "length (filter (\<lambda>e. action e = REMOVED) es) + length (filter (\<lambda>e. action e = INTERPOLATED) es) =
   length es"
proof (induction es)
  case Nil show ?case by simp
next
  case (Cons e es) then show ?case by (cases "action e") simp_all
qed

lemma getc_blank: "getc c (blank lbl s) = None"
  by (cases c) (simp_all add: blank_def)

lemma hr_tail_null: "\<forall>r\<in>set hr_tail. getc c r = None"
  by (simp add: hr_tail_def getc_blank)

lemma hr_lengths: "length hr_head = 4" "length hr_mid = 4" "length hr_done = 4" "length hr_tail = 14"
  by (simp_all add: hr_head_def hr_mid_def hr_done_def hr_tail_def)

lemma nth_hr_tail:
  assumes "length H = 4" "4 \<le> j" "j < length (H @ hr_tail)"
  shows "getc c ((H @ hr_tail) ! j) = None"
proof -
  have "(H @ hr_tail) ! j = hr_tail ! (j - 4)" using assms by (simp add: nth_append)
  moreover have "hr_tail ! (j - 4) \<in> set hr_tail" using assms by simp
  ultimately show ?thesis using hr_tail_null by simp
qed

lemma valid_values_append: "valid_values (xs @ ys) = valid_values xs @ valid_values ys"
  by (induction xs) (simp_all add: valid_values_def List.map_filter_simps split: option.split)

lemma valid_values_null: "\<forall>v\<in>set vs. v = None \<Longrightarrow> valid_values vs = []"
  by (induction vs) (simp_all add: valid_values_def List.map_filter_simps)

lemma valid_values_one: "length (valid_values [v]) \<le> 1"
  by (cases v) (simp_all add: valid_values_def List.map_filter_simps)

lemma sd_col_hr_in: "sd_col 0 (hr_in, [], 0) c = (hr_in, [], 0)"
proof -
  have "drop 3 hr_in = [hr_head ! 3] @ hr_tail"
    by (simp add: hr_in_def hr_head_def)
  then have "map (getc c) (drop 3 hr_in) = [getc c (hr_head ! 3)] @ map (getc c) hr_tail"
    by simp
  then have "valid_values (map (getc c) (drop 3 hr_in)) =
      valid_values [getc c (hr_head ! 3)] @ valid_values (map (getc c) hr_tail)"
    by (simp only: valid_values_append)
  moreover have "valid_values (map (getc c) hr_tail) = []"
    by (rule valid_values_null) (use hr_tail_null in auto)
  ultimately have "length (valid_values (map (getc c) (drop 3 hr_in))) \<le> 1"
    using valid_values_one by simp
  then show ?thesis by (simp add: sd_col_def Let_def)
qed

lemma hr_step_null: "HR (fst st ! j) = None \<Longrightarrow> hr_step i st j = st"
  by (simp add: hr_step_def)

lemma upt18: "[0 ..< 18] = [0, 1, 2, 3] @ [4 ..< 18]"
proof -
  have "[0 ..< 4 + 14] = [0 ..< 4] @ [4 ..< 4 + 14]" by (rule upt_add_eq_append) simp
  moreover have "[0 ..< 4] = [0, 1, 2, 3]" by (simp add: eval_nat_numeral)
  ultimately show ?thesis by simp
qed

lemma stage_hr_in:
  "stage_body 0 (hr_in, [], 0) = (hr_mid @ hr_tail, [((''0:00:30'', Col_HR), hr_entry)], 1)"
proof -
  let ?st0 = "(hr_in, []::auditMap, 0::int)"
  let ?st1 = "(hr_mid @ hr_tail, [((''0:00:30'', Col_HR), hr_entry)], 1::int)"
  have sd: "foldl (sd_col 0) ?st0 OUTLIER_COLS = ?st0"
    by (rule foldl_fixed) (rule sd_col_hr_in)
  have h0: "hr_step 0 ?st0 0 = ?st0"
    by (rule hr_step_null) (simp add: hr_in_def hr_head_def blank_def)
  have h1: "hr_step 0 ?st0 1 = ?st0"
    by (simp add: hr_step_def hr_reason_def hr_in_def hr_head_def blank_def)
  have h2: "hr_step 0 ?st0 2 = ?st1"
    by (simp add: hr_step_def hr_reason_def reject_def hr_in_def hr_head_def hr_mid_def
        hr_entry_def blank_def)
  have h3: "hr_step 0 ?st1 3 = ?st1"
    by (simp add: hr_step_def hr_reason_def hr_mid_def blank_def)
  have h4: "hr_step 0 ?st1 j = ?st1" if "j \<in> set [4 ..< 18]" for j
  proof (rule hr_step_null)
    from that have "4 \<le> j" "j < 18" by (simp_all only: set_upt atLeastLessThan_iff)
    then have "getc Col_HR ((hr_mid @ hr_tail) ! j) = None"
      by (intro nth_hr_tail) (simp_all add: hr_lengths)
    then show "HR (fst ?st1 ! j) = None" by simp
  qed
  have rest: "foldl (hr_step 0) ?st1 [4 ..< 18] = ?st1"
    by (rule foldl_fixed) (rule h4)
  have "length (fst ?st0) = 18" by (simp add: hr_in_def hr_lengths)
  then have "foldl (hr_step 0) ?st0 [0 ..< length (fst ?st0)] = ?st1"
    by (simp only: upt18 foldl_append foldl_Cons foldl_Nil h0 h1 h2 h3 rest)
  then show ?thesis unfolding stage_body_def Let_def sd .
qed

lemma detect_hr_in:
  "detect_phase hr_in = (hr_mid @ hr_tail, [((''0:00:30'', Col_HR), hr_entry)], 1)"
proof -
  have len: "length hr_in = 18" by (simp add: hr_in_def hr_lengths)
  then have full: "(0 + 1) * STAGE_ROWS \<le> length hr_in" by (simp add: STAGE_ROWS_def)
  have N: "(length hr_in + STAGE_ROWS - 1) div STAGE_ROWS = 1" by (simp add: len STAGE_ROWS_def)
  have "take STAGE_ROWS (drop (0 * STAGE_ROWS) hr_in) = hr_in" by (simp add: len STAGE_ROWS_def)
  then have "detect_stage 1 (hr_in, [], 0) 0 =
      (hr_mid @ hr_tail, [((''0:00:30'', Col_HR), hr_entry)], 1)"
    unfolding detect_stage_full [OF full] by (simp add: stage_hr_in len STAGE_ROWS_def)
  then show ?thesis unfolding detect_phase_def Let_def N by simp
qed


lemma interp_step_no_next:
  assumes "\<forall>j. i < j \<and> j < length (fst st) \<longrightarrow> getc c (fst st ! j) = None"
  shows "interp_step c st i = st"
proof -
  have "find_next (fst st) c i = None"
    unfolding find_next_def find_None_iff using assms by auto
  then show ?thesis by (simp add: interp_step_def split: option.split)
qed

lemma interp_step_first: "i mod STAGE_ROWS = 0 \<Longrightarrow> interp_step c st i = st"
proof -
  assume "i mod STAGE_ROWS = 0"
  then have "i div STAGE_ROWS * STAGE_ROWS = i" by (simp add: STAGE_ROWS_def) presburger
  then have "find_prev (fst st) c i = None" by (simp add: find_prev_def)
  then show ?thesis by (simp add: interp_step_def)
qed

lemma hr_rows_null:
  assumes "length H = 4" "\<forall>r\<in>set H. getc c r = None"
  shows "\<forall>r\<in>set (fst (H @ hr_tail, m, a, b)). getc c r = None"
  using assms(2) hr_tail_null by auto

lemma interp_hr_in:
  "interp_phase (hr_mid @ hr_tail, [((''0:00:30'', Col_HR), hr_entry)], 1) =
     (hr_done @ hr_tail,
      [((''0:00:30'', Col_HR), hr_entry\<lparr>action := INTERPOLATED, newValue := Some 110\<rparr>)], 1, 1)"
proof -
  let ?m1 = "[((''0:00:30'', Col_HR), hr_entry)]"
  let ?m2 = "[((''0:00:30'', Col_HR), hr_entry\<lparr>action := INTERPOLATED, newValue := Some 110\<rparr>)]"
  let ?st1 = "(hr_mid @ hr_tail, ?m1, 1::int, 0::int)"
  let ?st2 = "(hr_done @ hr_tail, ?m2, 1::int, 1::int)"
  have other1: "interp_col ?st1 c = ?st1" if "c \<noteq> Col_HR" for c
  proof (rule interp_col_null_col, rule hr_rows_null)
    show "length hr_mid = 4" by (rule hr_lengths)
    show "\<forall>r\<in>set hr_mid. getc c r = None"
      using that by (cases c) (simp_all add: hr_mid_def blank_def)
  qed
  have other2: "interp_col ?st2 c = ?st2" if "c \<noteq> Col_HR" for c
  proof (rule interp_col_null_col, rule hr_rows_null)
    show "length hr_done = 4" by (rule hr_lengths)
    show "\<forall>r\<in>set hr_done. getc c r = None"
      using that by (cases c) (simp_all add: hr_done_def blank_def)
  qed
  have i0: "interp_step Col_HR ?st1 0 = ?st1"
    by (rule interp_step_first) simp
  have i1: "interp_step Col_HR ?st1 1 = ?st1"
    by (rule interp_step_skip) (simp add: hr_mid_def blank_def)
  have "interp_step Col_HR ?st1 2 =
      fill_cell Col_HR 2 (100 + (120 - 100) * (real (2 - 1) / real (3 - 1))) ?st1"
    by (rule interp_step_unfold) (auto simp add: hr_mid_def blank_def STAGE_ROWS_def hr_lengths)
  then have i2: "interp_step Col_HR ?st1 2 = ?st2"
    by (simp add: fill_cell_def hr_mid_def hr_done_def hr_entry_def blank_def)
  have i3: "interp_step Col_HR ?st2 3 = ?st2"
    by (rule interp_step_skip) (simp add: hr_done_def blank_def)
  have i4: "interp_step Col_HR ?st2 i = ?st2" if "i \<in> set [4 ..< 18]" for i
  proof (rule interp_step_no_next, intro allI impI)
    from that have i: "4 \<le> i" by (simp only: set_upt atLeastLessThan_iff)
    fix j assume "i < j \<and> j < length (fst ?st2)"
    then have "4 \<le> j" "j < length (hr_done @ hr_tail)" using i by simp_all
    then have "getc Col_HR ((hr_done @ hr_tail) ! j) = None"
      by (intro nth_hr_tail) (simp_all add: hr_lengths)
    then show "getc Col_HR (fst ?st2 ! j) = None" by simp
  qed
  have rest: "foldl (interp_step Col_HR) ?st2 [4 ..< 18] = ?st2"
    by (rule foldl_fixed) (rule i4)
  have "length (fst ?st1) = 18" by (simp add: hr_lengths)
  then have hr: "interp_col ?st1 Col_HR = ?st2"
    unfolding interp_col_def
    by (simp only: upt18 foldl_append foldl_Cons foldl_Nil i0 i1 i2 i3 rest)
  have o1: "interp_col ?st1 Col_VO2 = ?st1" "interp_col ?st1 Col_VCO2 = ?st1"
    "interp_col ?st1 Col_VE = ?st1"
    by (rule other1, simp)+
  have o2: "interp_col ?st2 Col_VT = ?st2" "interp_col ?st2 Col_BF = ?st2"
    by (rule other2, simp)+
  show ?thesis
    by (simp only: interp_phase_def OUTLIER_COLS_def prod.case foldl_Cons foldl_Nil o1 hr o2)
qed

lemma clean_hr_in:
  "auditLog (cleanAndInterpolateData cmp hr_in w) =
     [hr_entry\<lparr>action := INTERPOLATED, newValue := Some 110\<rparr>] \<and>
   stats (cleanAndInterpolateData cmp hr_in w) = \<lparr>outliersRemoved = 1, pointsInterpolated = 1\<rparr>"
  by (simp add: cleanAndInterpolateData_def detect_hr_in interp_hr_in sort_log_def)

lemma distinct_hr_in: "distinct (map t hr_in)"
  by (simp add: hr_in_def hr_head_def hr_tail_def blank_def)

text \<open>
  Claim C2, amended.  For a series whose time labels are pairwise distinct, after
  \<open>cleanAndInterpolateData\<close> the number of log entries with action REMOVED plus the number
  with action INTERPOLATED is \<open>stats.outliersRemoved\<close>, and the number with action
  INTERPOLATED is \<open>stats.pointsInterpolated\<close>: an entry upgraded to INTERPOLATED is counted
  by both counters, an entry deleted by the no-op rule by neither.
\<close>

theorem audit_counts:
  assumes "distinct (map t data)"
  shows "int (length (filter (\<lambda>e. action e = REMOVED) (auditLog (cleanAndInterpolateData cmp data bodyWeight))) +
          length (filter (\<lambda>e. action e = INTERPOLATED) (auditLog (cleanAndInterpolateData cmp data bodyWeight)))) =
       outliersRemoved (stats (cleanAndInterpolateData cmp data bodyWeight)) \<and>
     int (length (filter (\<lambda>e. action e = INTERPOLATED) (auditLog (cleanAndInterpolateData cmp data bodyWeight)))) =
       pointsInterpolated (stats (cleanAndInterpolateData cmp data bodyWeight))"
proof -
  obtain rows m a b where res: "interp_phase (detect_phase data) = (rows, m, a, b)"
    by (cases "interp_phase (detect_phase data)")
  from interp_phase_inv [OF assms] have inv: "log_inv (rows, m, a, b)" by (simp add: res)
  note I = log_invD [OF inv]
  have log: "auditLog (cleanAndInterpolateData cmp data bodyWeight) = sort_log cmp (map snd m)"
    and st: "outliersRemoved (stats (cleanAndInterpolateData cmp data bodyWeight)) = a"
      "pointsInterpolated (stats (cleanAndInterpolateData cmp data bodyWeight)) = b"
    by (simp_all add: cleanAndInterpolateData_def res)
  have "length (filter (\<lambda>e. action e = REMOVED) (sort_log cmp (map snd m))) +
      length (filter (\<lambda>e. action e = INTERPOLATED) (sort_log cmp (map snd m))) = length m"
    using count_actions [of "map snd m"] by (simp add: filter_sort_log)
  moreover have "length (filter (\<lambda>e. action e = INTERPOLATED) (sort_log cmp (map snd m))) =
      length (filter (\<lambda>e. action e = INTERPOLATED) (map snd m))"
    by (rule filter_sort_log)
  ultimately show ?thesis using I(3,4) by (simp add: log st)
qed

text \<open>The theorem at \<open>hr_in\<close>, whose 18 labels are distinct.\<close>

theorem audit_counts_witness:
  "distinct (map t hr_in) \<and>
   int (length (filter (\<lambda>e. action e = REMOVED)
          (auditLog (cleanAndInterpolateData (\<lambda>a b. 0) hr_in 70))) +
        length (filter (\<lambda>e. action e = INTERPOLATED)
          (auditLog (cleanAndInterpolateData (\<lambda>a b. 0) hr_in 70)))) =
     outliersRemoved (stats (cleanAndInterpolateData (\<lambda>a b. 0) hr_in 70)) \<and>
   int (length (filter (\<lambda>e. action e = INTERPOLATED)
          (auditLog (cleanAndInterpolateData (\<lambda>a b. 0) hr_in 70)))) =
     pointsInterpolated (stats (cleanAndInterpolateData (\<lambda>a b. 0) hr_in 70))"
  using audit_counts [OF distinct_hr_in, of "\<lambda>a b. 0" 70] distinct_hr_in by blast

text \<open>
  On \<open>hr_in\<close> the heart rate 300 of row 2 is rejected and then interpolated to 110: the log
  has one entry, INTERPOLATED, and none REMOVED, while both counters are 1, so the counters
  add up to 2.
\<close>

theorem audit_counts_counterexample:
  "length (filter (\<lambda>e. action e = REMOVED)
      (auditLog (cleanAndInterpolateData (\<lambda>a b. 0) hr_in 70))) = 0 \<and>
   length (filter (\<lambda>e. action e = INTERPOLATED)
      (auditLog (cleanAndInterpolateData (\<lambda>a b. 0) hr_in 70))) = 1 \<and>
   outliersRemoved (stats (cleanAndInterpolateData (\<lambda>a b. 0) hr_in 70)) = 1 \<and>
   pointsInterpolated (stats (cleanAndInterpolateData (\<lambda>a b. 0) hr_in 70)) = 1"
  by (simp add: clean_hr_in hr_entry_def)

end
